theory Spec2Isabelle
  imports Main "HOL-Library.Word" "HOL-Library.Multiset"
begin

section \<open>The worker pool of concpool/pool.go\<close>

text \<open>
  The package is a concurrent program: the goroutine that calls \<^verbatim>\<open>Wait\<close>, one goroutine
  per started task, and the goroutines that call \<^verbatim>\<open>Run\<close>. It is embedded as a transition
  system. A state holds the \<^verbatim>\<open>Pool\<close> struct and, for every goroutine, the place it has
  reached; an action is one atomic piece of one goroutine: a critical section of the mutex
  \<^verbatim>\<open>mu\<close> (everything between \<^verbatim>\<open>Lock\<close> and \<^verbatim>\<open>Unlock\<close>) or one channel operation. A
  schedule is a list of actions; \<open>run\<close> executes it and is \<open>None\<close> as soon as an action
  is not enabled. Every interleaving of the program is a schedule, and the choice that
  Go's \<^verbatim>\<open>select\<close> makes among its ready cases is the choice of the next action.

  \<^verbatim>\<open>Run\<close> may be called at any time and from any goroutine, also from the body of a
  task; \<^verbatim>\<open>Wait\<close> is called once, by one goroutine (it is the only caller of
  \<^verbatim>\<open>checkQueue\<close>). A goroutine started inside the critical section of \<^verbatim>\<open>checkQueue\<close>
  appears when the section ends: until its decrement of \<^verbatim>\<open>running\<close> it touches only
  its task and the channel \<^verbatim>\<open>results\<close>, which the section does not use.
\<close>

subsection \<open>Data\<close>

text \<open>A non-nil \<^verbatim>\<open>error\<close> value, by its message.\<close>

type_synonym error = string

text \<open>
  A task is a \<^verbatim>\<open>func() error\<close>. The pool calls it once and only looks at what it
  returns (\<open>None\<close> is \<^verbatim>\<open>nil\<close>); the number tells tasks apart.
\<close>

datatype task = Task (task_id: nat) (task_body: "error option")

record TaskResult =
  Success :: bool
  Err :: "error option"

text \<open>
  The struct \<^verbatim>\<open>Pool\<close>. A Go \<^verbatim>\<open>int\<close> (64 bits) is the integer it denotes, and the
  arithmetic on it wraps, see \<open>int64\<close>. A buffered channel is the list of the values in
  its buffer, oldest first. The mutex has no field: it is the atomicity of the actions.
\<close>

record Pool =
  maxCount :: int
  queue :: "task list"
  running :: int
  results :: "TaskResult list"
  terminated :: bool
  terminationChannel :: "bool list"
  runCheckChannel :: "bool list"

datatype panic = MakesliceCapOutOfRange

text \<open>Two's complement wrap-around of 64-bit \<^verbatim>\<open>int\<close> arithmetic.\<close>

definition int64 :: "int \<Rightarrow> int" where
  "int64 x = sint (word_of_int x :: 64 word)"

text \<open>Every channel of the pool is made with capacity 1.\<close>

definition chan_cap :: nat where
  "chan_cap = 1"

definition chan_full :: "'a list \<Rightarrow> bool" where
  "chan_full c = (chan_cap \<le> length c)"

text \<open>\<^verbatim>\<open>select { case c <- v: default: }\<close>: send if there is room, else drop.\<close>

definition try_send :: "'a \<Rightarrow> 'a list \<Rightarrow> 'a list" where
  "try_send v c = (if chan_full c then c else c @ [v])"

subsection \<open>The functions of the package\<close>

text \<open>
  The largest allocation the Go runtime makes, \<^verbatim>\<open>maxAlloc\<close> of \<^verbatim>\<open>runtime/malloc.go\<close>. The
  constant belongs to the runtime and not to this package; the value is that of
  linux/amd64 and of the other 64-bit platforms with 48 bits of heap address.
\<close>

definition maxAlloc :: int where
  "maxAlloc = 2 ^ 48"

text \<open>
  \<^verbatim>\<open>New\<close>. The capacity of the queue's slice is \<^verbatim>\<open>maxCount*2\<close>, computed in 64 bits.
  \<^verbatim>\<open>make\<close> panics (\<^verbatim>\<open>makeslice: cap out of range\<close>) when the capacity is negative or when
  the slice, 8 bytes for each \<^verbatim>\<open>func() error\<close>, would be larger than \<^verbatim>\<open>maxAlloc\<close>. (The
  machine running out of memory for a capacity within that limit is outside the model.)
\<close>

definition New :: "64 word \<Rightarrow> panic + Pool" where
  "New n =
     (let maxCount = (if sint n \<le> 0 then 1 else n) in
      if sint (maxCount * 2) < 0 \<or> maxAlloc < 8 * sint (maxCount * 2)
      then Inl MakesliceCapOutOfRange
      else Inr \<lparr>maxCount = sint maxCount, queue = [], running = 0, results = [],
                terminated = False, terminationChannel = [], runCheckChannel = []\<rparr>)"

definition pushToQueue :: "task \<Rightarrow> Pool \<Rightarrow> Pool" where
  "pushToQueue t p = p\<lparr>queue := queue p @ [t]\<rparr>"

definition attemptTermination :: "Pool \<Rightarrow> Pool" where
  "attemptTermination p =
     (if terminated p then p
      else p\<lparr>terminated := True,
              terminationChannel := try_send True (terminationChannel p)\<rparr>)"

definition attemptCheck :: "Pool \<Rightarrow> Pool" where
  "attemptCheck p = p\<lparr>runCheckChannel := try_send True (runCheckChannel p)\<rparr>"

text \<open>
  The loop of \<^verbatim>\<open>checkQueue\<close> (lines 88 to 120), which runs with the mutex held. It
  returns the pool, the tasks it has started a goroutine for (in the order of the
  \<^verbatim>\<open>go\<close> statements) and whether it left through line 91, where \<^verbatim>\<open>checkQueue\<close> goes on
  to \<^verbatim>\<open>attemptTermination\<close> after unlocking. \<open>i + 1\<close> cannot wrap: \<open>i < available\<close>.
\<close>

function checkQueue_loop :: "int \<Rightarrow> int \<Rightarrow> Pool \<Rightarrow> task list \<Rightarrow> Pool \<times> task list \<times> bool" where
  "checkQueue_loop i available p started =
     (if i < available then
        (case queue p of
           [] \<Rightarrow> (p, started, running p = 0)
         | t # rest \<Rightarrow>
             checkQueue_loop (i + 1) available
               (p\<lparr>queue := rest, running := int64 (running p + 1)\<rparr>) (started @ [t]))
      else (p, started, False))"
  by pat_completeness auto
termination
  by (relation "measure (\<lambda>(i, available, p, started). nat (available - i))") auto

text \<open>The critical section of \<^verbatim>\<open>checkQueue\<close>, lines 76 to 122.\<close>

definition checkQueue :: "Pool \<Rightarrow> Pool \<times> task list \<times> bool" where
  "checkQueue p =
     (if terminated p then (p, [], False)
      else
        let available = int64 (maxCount p - running p) in
        if available \<le> 0 then (p, [], False)
        else checkQueue_loop 0 available p [])"

text \<open>What the goroutine of a task sends on \<^verbatim>\<open>results\<close> (lines 107 to 111).\<close>

definition task_result :: "error option \<Rightarrow> TaskResult" where
  "task_result err =
     (if err \<noteq> None then \<lparr>Success = False, Err = err\<rparr>
      else \<lparr>Success = True, Err = None\<rparr>)"

subsection \<open>Goroutines\<close>

text \<open>
  The goroutine of a started task (lines 105 to 119): it calls the task, sends the
  outcome on \<^verbatim>\<open>results\<close> (which blocks while the buffer is full), decrements
  \<^verbatim>\<open>running\<close> under the mutex, and calls \<^verbatim>\<open>attemptCheck\<close>.
\<close>

datatype phase = Body | Send "error option" | Dec | Signal | Done

fun worker_step :: "task \<times> phase \<Rightarrow> Pool \<Rightarrow> ((task \<times> phase) \<times> Pool) option" where
  "worker_step (t, Body) p = Some ((t, Send (task_body t)), p)"
| "worker_step (t, Send err) p =
     (if chan_full (results p) then None
      else Some ((t, Dec), p\<lparr>results := results p @ [task_result err]\<rparr>))"
| "worker_step (t, Dec) p = Some ((t, Signal), p\<lparr>running := int64 (running p - 1)\<rparr>)"
| "worker_step (t, Signal) p = Some ((t, Done), attemptCheck p)"
| "worker_step (t, Done) p = None"

text \<open>
  The goroutine in \<^verbatim>\<open>Wait\<close>: not yet called; about to run \<^verbatim>\<open>checkQueue\<close> (line 136 or
  143); between the unlock of line 91 and \<^verbatim>\<open>attemptTermination\<close>; at the \<^verbatim>\<open>select\<close>;
  returned.
\<close>

datatype wait_pc = NotCalled | Checking | Terminating | Selecting | Returned

text \<open>
  The whole state. \<open>workers\<close> lists the goroutines of the started tasks in the order
  of their \<^verbatim>\<open>go\<close> statements; \<open>callers\<close> counts the goroutines inside \<^verbatim>\<open>Run\<close> between
  \<^verbatim>\<open>pushToQueue\<close> and \<^verbatim>\<open>attemptCheck\<close>; \<open>wait_results\<close> is the local slice
  \<^verbatim>\<open>results\<close> of \<^verbatim>\<open>Wait\<close>, and its value when \<^verbatim>\<open>Wait\<close> has returned. Two fields are
  history only, no code reads them: \<open>submitted\<close>, the tasks given to \<^verbatim>\<open>Run\<close> in the
  order of their \<^verbatim>\<open>pushToQueue\<close>, and \<open>term_sends\<close>, how often line 58 has set the flag
  and run the send of line 61.
\<close>

record sys =
  pool :: Pool
  workers :: "(task \<times> phase) list"
  callers :: nat
  wait_pc :: wait_pc
  wait_results :: "TaskResult list"
  submitted :: "task list"
  term_sends :: nat

definition start :: "Pool \<Rightarrow> sys" where
  "start p = \<lparr>pool = p, workers = [], callers = 0, wait_pc = NotCalled,
              wait_results = [], submitted = [], term_sends = 0\<rparr>"

datatype action =
    Run_push task
  | Run_signal
  | Wait_call
  | Wait_checkQueue
  | Wait_terminate
  | Recv_check
  | Recv_result
  | Recv_term
  | Worker nat

fun step :: "action \<Rightarrow> sys \<Rightarrow> sys option" where
  "step (Run_push t) s =
     Some (s\<lparr>pool := pushToQueue t (pool s), callers := callers s + 1,
             submitted := submitted s @ [t]\<rparr>)"
| "step Run_signal s =
     (if callers s = 0 then None
      else Some (s\<lparr>pool := attemptCheck (pool s), callers := callers s - 1\<rparr>))"
| "step Wait_call s =
     (if wait_pc s = NotCalled then Some (s\<lparr>wait_pc := Checking\<rparr>) else None)"
| "step Wait_checkQueue s =
     (if wait_pc s = Checking then
        (case checkQueue (pool s) of
           (p, started, terminate) \<Rightarrow>
             Some (s\<lparr>pool := p, workers := workers s @ map (\<lambda>t. (t, Body)) started,
                     wait_pc := (if terminate then Terminating else Selecting)\<rparr>))
      else None)"
| "step Wait_terminate s =
     (if wait_pc s = Terminating then
        Some (s\<lparr>pool := attemptTermination (pool s), wait_pc := Selecting,
                term_sends := term_sends s + (if terminated (pool s) then 0 else 1)\<rparr>)
      else None)"
| "step Recv_check s =
     (if wait_pc s = Selecting then
        (case runCheckChannel (pool s) of
           [] \<Rightarrow> None
         | b # rest \<Rightarrow> Some (s\<lparr>pool := (pool s)\<lparr>runCheckChannel := rest\<rparr>, wait_pc := Checking\<rparr>))
      else None)"
| "step Recv_result s =
     (if wait_pc s = Selecting then
        (case results (pool s) of
           [] \<Rightarrow> None
         | r # rest \<Rightarrow> Some (s\<lparr>pool := (pool s)\<lparr>results := rest\<rparr>,
                               wait_results := wait_results s @ [r]\<rparr>))
      else None)"
| "step Recv_term s =
     (if wait_pc s = Selecting then
        (case terminationChannel (pool s) of
           [] \<Rightarrow> None
         | b # rest \<Rightarrow> Some (s\<lparr>pool := (pool s)\<lparr>terminationChannel := rest\<rparr>,
                               wait_pc := Returned\<rparr>))
      else None)"
| "step (Worker i) s =
     (if i < length (workers s) then
        (case worker_step (workers s ! i) (pool s) of
           None \<Rightarrow> None
         | Some (w, p) \<Rightarrow> Some (s\<lparr>pool := p, workers := (workers s)[i := w]\<rparr>))
      else None)"

fun run :: "action list \<Rightarrow> sys \<Rightarrow> sys option" where
  "run [] s = Some s"
| "run (a # as) s = (case step a s of None \<Rightarrow> None | Some s' \<Rightarrow> run as s')"

text \<open>A program that calls \<^verbatim>\<open>New(n)\<close> and then runs under the schedule \<open>as\<close>.\<close>

definition exec :: "64 word \<Rightarrow> action list \<Rightarrow> sys option" where
  "exec n as = (case New n of Inl e \<Rightarrow> None | Inr p \<Rightarrow> run as (start p))"

subsection \<open>Notions used in the statements\<close>

text \<open>
  A goroutine holds one of the \<open>maxCount\<close> places from its \<^verbatim>\<open>go\<close> statement (line 102
  has counted it) until it has decremented \<^verbatim>\<open>running\<close> (line 114).
\<close>

fun holds_slot :: "task \<times> phase \<Rightarrow> bool" where
  "holds_slot (t, Body) = True"
| "holds_slot (t, Send err) = True"
| "holds_slot (t, Dec) = True"
| "holds_slot (t, Signal) = False"
| "holds_slot (t, Done) = False"

definition slots :: "(task \<times> phase) list \<Rightarrow> nat" where
  "slots ws = length (filter holds_slot ws)"

text \<open>A goroutine has delivered its outcome once its send on \<^verbatim>\<open>results\<close> is done.\<close>

fun delivered :: "task \<times> phase \<Rightarrow> bool" where
  "delivered (t, Body) = False"
| "delivered (t, Send err) = False"
| "delivered (t, Dec) = True"
| "delivered (t, Signal) = True"
| "delivered (t, Done) = True"

text \<open>
  The actions of the pool itself and of calls already made: all but the start of a new
  call of \<^verbatim>\<open>Run\<close>.
\<close>

fun internal :: "action \<Rightarrow> bool" where
  "internal (Run_push t) = False"
| "internal a = True"

text \<open>
  \<open>must_return s\<close>: from \<open>s\<close>, when no further call of \<^verbatim>\<open>Run\<close> starts, \<^verbatim>\<open>Wait\<close> returns
  on every schedule: \<^verbatim>\<open>Wait\<close> has returned, or some action is enabled (no deadlock) and
  every enabled action leads to a state from which \<^verbatim>\<open>Wait\<close> must return. The definition
  is inductive, so no schedule runs forever without \<^verbatim>\<open>Wait\<close> returning. A task's body is
  one action that is always enabled: the body returns.
\<close>

inductive must_return :: "sys \<Rightarrow> bool" where
  returned: "wait_pc s = Returned \<Longrightarrow> must_return s"
| progress: "wait_pc s \<noteq> Returned \<Longrightarrow> \<exists>a. internal a \<and> step a s \<noteq> None \<Longrightarrow>
     (\<And>a s'. internal a \<Longrightarrow> step a s = Some s' \<Longrightarrow> must_return s') \<Longrightarrow> must_return s"

text \<open>The tasks that the calls of \<^verbatim>\<open>Run\<close> in a schedule append to the queue, in order.\<close>

fun pushed :: "action list \<Rightarrow> task list" where
  "pushed [] = []"
| "pushed (Run_push t # as) = t # pushed as"
| "pushed (a # as) = pushed as"

text \<open>
  How many values the actions of a schedule put on \<^verbatim>\<open>terminationChannel\<close>, read off the
  channel itself: what each action adds to the length of its buffer. \<open>exec_signals\<close>
  counts them for a program that starts with \<^verbatim>\<open>New(n)\<close>.
\<close>

fun term_signals :: "action list \<Rightarrow> sys \<Rightarrow> nat" where
  "term_signals [] s = 0"
| "term_signals (a # as) s =
     (case step a s of
        None \<Rightarrow> 0
      | Some s' \<Rightarrow>
          (length (terminationChannel (pool s')) - length (terminationChannel (pool s))) +
          term_signals as s')"

definition exec_signals :: "64 word \<Rightarrow> action list \<Rightarrow> nat" where
  "exec_signals n as = (case New n of Inl e \<Rightarrow> 0 | Inr p \<Rightarrow> term_signals as (start p))"

subsection \<open>Invariants and the measure of the remaining work\<close>

text \<open>
  The invariants of the reachable states, each kept by every action:
  \<^item> \<open>inv_count\<close>: the limit is a positive 64-bit value, and \<open>running\<close> is the number
    of goroutines that hold a place and does not exceed the limit;
  \<^item> \<open>inv_fifo\<close>: started tasks followed by queued tasks are the submitted tasks, and
    with limit 1 only the goroutine started last can hold a place;
  \<^item> \<open>inv_results\<close>: a goroutine about to send holds what its task returned, and the
    outcomes collected or buffered are those of the goroutines that have sent;
  \<^item> \<open>inv_term\<close>: the flag, the place \<^verbatim>\<open>Wait\<close> has reached, the buffer of
    \<^verbatim>\<open>terminationChannel\<close> and the count of sends on it agree;
  \<^item> \<open>inv_signal\<close>: \<^verbatim>\<open>terminationChannel\<close> holds one value from the moment the flag is
    set until \<^verbatim>\<open>Wait\<close> has received it, and is empty otherwise;
  \<^item> \<open>inv_progress\<close>: while \<^verbatim>\<open>Wait\<close> is at its \<^verbatim>\<open>select\<close> on a pool that is not
    terminated, a signal on \<^verbatim>\<open>runCheckChannel\<close> is buffered or is still to come.

  \<open>work_left\<close> bounds the number of actions that can still happen when no new call of
  \<^verbatim>\<open>Run\<close> starts: every such action makes it smaller.
\<close>

definition inv_count :: "sys \<Rightarrow> bool" where
  "inv_count s =
     (1 \<le> maxCount (pool s) \<and> maxCount (pool s) < 2 ^ 63 \<and>
      running (pool s) = int (slots (workers s)) \<and> running (pool s) \<le> maxCount (pool s))"

definition inv_fifo :: "sys \<Rightarrow> bool" where
  "inv_fifo s =
     (map fst (workers s) @ queue (pool s) = submitted s \<and>
      (maxCount (pool s) = 1 \<longrightarrow> slots (butlast (workers s)) = 0))"

definition inv_results :: "sys \<Rightarrow> bool" where
  "inv_results s =
     ((\<forall>t err. (t, Send err) \<in> set (workers s) \<longrightarrow> err = task_body t) \<and>
      mset (wait_results s) + mset (results (pool s)) =
        mset (map (\<lambda>w. task_result (task_body (fst w))) (filter delivered (workers s))))"

definition inv_term :: "sys \<Rightarrow> bool" where
  "inv_term s =
     ((terminated (pool s) \<longrightarrow>
         wait_pc s \<in> {Checking, Selecting, Returned} \<and>
         (wait_pc s \<noteq> Returned \<longrightarrow> terminationChannel (pool s) \<noteq> [])) \<and>
      (\<not> terminated (pool s) \<longrightarrow>
         terminationChannel (pool s) = [] \<and> wait_pc s \<noteq> Returned) \<and>
      term_sends s = (if terminated (pool s) then 1 else 0) \<and>
      (wait_pc s = Terminating \<longrightarrow> running (pool s) = 0))"

definition inv_signal :: "sys \<Rightarrow> bool" where
  "inv_signal s =
     (terminationChannel (pool s) =
        (if terminated (pool s) \<and> wait_pc s \<noteq> Returned then [True] else []))"

definition inv_progress :: "sys \<Rightarrow> bool" where
  "inv_progress s =
     (wait_pc s = Selecting \<and> \<not> terminated (pool s) \<longrightarrow>
        runCheckChannel (pool s) \<noteq> [] \<or> 0 < callers s \<or>
        (\<exists>w \<in> set (workers s). snd w \<noteq> Done))"

fun phase_weight :: "task \<times> phase \<Rightarrow> nat" where
  "phase_weight (t, Body) = 9"
| "phase_weight (t, Send err) = 8"
| "phase_weight (t, Dec) = 6"
| "phase_weight (t, Signal) = 5"
| "phase_weight (t, Done) = 0"

fun pc_weight :: "wait_pc \<Rightarrow> nat" where
  "pc_weight NotCalled = 5"
| "pc_weight Checking = 4"
| "pc_weight Terminating = 3"
| "pc_weight Selecting = 1"
| "pc_weight Returned = 0"

definition work_left :: "sys \<Rightarrow> nat" where
  "work_left s =
     9 * length (queue (pool s)) + sum_list (map phase_weight (workers s)) +
     5 * callers s + 4 * length (runCheckChannel (pool s)) + length (results (pool s)) +
     pc_weight (wait_pc s)"

section \<open>Properties\<close>

subsection \<open>Arithmetic and the loop of checkQueue\<close>

lemma int64_id: "- (2 ^ 63) \<le> x \<Longrightarrow> x < 2 ^ 63 \<Longrightarrow> int64 x = x"
  unfolding int64_def by (simp add: sint_sbintrunc' signed_take_bit_int_eq_self)

declare checkQueue_loop.simps [simp del]

lemma checkQueue_loop_closed:
  "0 \<le> running p \<Longrightarrow> i \<le> available \<Longrightarrow> running p + (available - i) < 2 ^ 63 \<Longrightarrow>
   checkQueue_loop i available p acc =
     (let k = min (nat (available - i)) (length (queue p)) in
      (p\<lparr>queue := drop k (queue p), running := running p + int k\<rparr>,
       acc @ take k (queue p),
       length (queue p) < nat (available - i) \<and> running p + int (length (queue p)) = 0))"
proof (induction i available p acc rule: checkQueue_loop.induct)
  case (1 i available p started)
  show ?case
  proof (cases "i < available")
    case False
    with "1.prems" have "i = available" by simp
    then show ?thesis by (subst checkQueue_loop.simps) simp
  next
    case lt: True
    show ?thesis
    proof (cases "queue p")
      case Nil
      with lt show ?thesis by (subst checkQueue_loop.simps) simp
    next
      case (Cons t rest)
      let ?p = "p\<lparr>queue := rest, running := int64 (running p + 1)\<rparr>"
      have r: "int64 (running p + 1) = running p + 1"
        using "1.prems" lt by (intro int64_id) auto
      have "checkQueue_loop (i + 1) available ?p (started @ [t]) =
        (let k = min (nat (available - (i + 1))) (length (queue ?p)) in
      (?p\<lparr>queue := drop k (queue ?p), running := running ?p + int k\<rparr>,
       (started @ [t]) @ take k (queue ?p),
       length (queue ?p) < nat (available - (i + 1)) \<and> running ?p + int (length (queue ?p)) = 0))"
        using "1.prems" lt r by (intro "1.IH"[OF lt Cons]) auto
      moreover have "nat (available - i) = Suc (nat (available - (i + 1)))"
        using lt by simp
      ultimately show ?thesis
        using lt Cons r "1.prems" by (subst checkQueue_loop.simps) (simp add: Let_def)
    qed
  qed
qed

lemma checkQueue_closed:
  assumes "1 \<le> maxCount p" "maxCount p < 2 ^ 63" "0 \<le> running p" "running p < 2 ^ 63"
  shows "checkQueue p =
     (if terminated p \<or> maxCount p \<le> running p then (p, [], False)
      else let k = min (nat (maxCount p - running p)) (length (queue p)) in
        (p\<lparr>queue := drop k (queue p), running := running p + int k\<rparr>,
         take k (queue p), queue p = [] \<and> running p = 0))"
proof -
  have a: "int64 (maxCount p - running p) = maxCount p - running p"
    using assms by (intro int64_id) auto
  show ?thesis
  proof (cases "terminated p \<or> maxCount p \<le> running p")
    case True
    then show ?thesis by (auto simp: checkQueue_def a)
  next
    case False
    then have "checkQueue p = checkQueue_loop 0 (maxCount p - running p) p []"
      by (simp add: checkQueue_def a)
    also have "\<dots> = (let k = min (nat (maxCount p - running p - 0)) (length (queue p)) in
      (p\<lparr>queue := drop k (queue p), running := running p + int k\<rparr>,
       [] @ take k (queue p),
       length (queue p) < nat (maxCount p - running p - 0) \<and> running p + int (length (queue p)) = 0))"
      using assms False by (intro checkQueue_loop_closed) auto
    finally have c: "checkQueue p = (let k = min (nat (maxCount p - running p)) (length (queue p)) in
      (p\<lparr>queue := drop k (queue p), running := running p + int k\<rparr>,
       take k (queue p),
       length (queue p) < nat (maxCount p - running p) \<and> running p + int (length (queue p)) = 0))"
      by simp
    have flag: "(length (queue p) < nat (maxCount p - running p) \<and>
        running p + int (length (queue p)) = 0) = (queue p = [] \<and> running p = 0)"
      using assms False by (cases "queue p") auto
    show ?thesis using False unfolding c flag by simp
  qed
qed

lemma slots_update:
  "i < length ws \<Longrightarrow>
   slots (ws[i := w]) + (if holds_slot (ws ! i) then 1 else 0) =
   slots ws + (if holds_slot w then 1 else 0)"
proof (induction ws arbitrary: i)
  case Nil
  then show ?case by simp
next
  case (Cons a ws)
  show ?case
  proof (cases i)
    case 0
    then show ?thesis by (simp add: slots_def)
  next
    case (Suc j)
    with Cons.prems have "j < length ws" by simp
    from Cons.IH[OF this] Suc show ?thesis by (simp add: slots_def)
  qed
qed

lemma slots_append: "slots (xs @ ys) = slots xs + slots ys"
  by (simp add: slots_def)

lemma slots_Body: "slots (map (\<lambda>t. (t, Body)) ts) = length ts"
  by (induction ts) (simp_all add: slots_def)

lemma weight_update:
  "i < length ws \<Longrightarrow>
   sum_list (map phase_weight (ws[i := w])) + phase_weight (ws ! i) =
   sum_list (map phase_weight ws) + phase_weight w"
proof (induction ws arbitrary: i)
  case Nil
  then show ?case by simp
next
  case (Cons a ws)
  show ?case
  proof (cases i)
    case 0
    then show ?thesis by simp
  next
    case (Suc j)
    with Cons.prems have "j < length ws" by simp
    from Cons.IH[OF this] Suc show ?thesis by simp
  qed
qed

lemma delivered_update:
  "i < length ws \<Longrightarrow>
   mset (map g (filter delivered (ws[i := w]))) + (if delivered (ws ! i) then {#g (ws ! i)#} else {#}) =
   mset (map g (filter delivered ws)) + (if delivered w then {#g w#} else {#})"
proof (induction ws arbitrary: i)
  case Nil
  then show ?case by simp
next
  case (Cons a ws)
  show ?case
  proof (cases i)
    case 0
    then show ?thesis by simp
  next
    case (Suc j)
    with Cons.prems have "j < length ws" by simp
    from Cons.IH[OF this] Suc show ?thesis by (auto split: if_splits)
  qed
qed

text \<open>What one step of a goroutine does, phase by phase.\<close>

lemma step_WorkerE:
  assumes "step (Worker i) s = Some s'"
  obtains t where "i < length (workers s)" "workers s ! i = (t, Body)"
      "s' = s\<lparr>pool := pool s, workers := (workers s)[i := (t, Send (task_body t))]\<rparr>"
  | t err where "i < length (workers s)" "workers s ! i = (t, Send err)" "results (pool s) = []"
      "s' = s\<lparr>pool := (pool s)\<lparr>results := [task_result err]\<rparr>, workers := (workers s)[i := (t, Dec)]\<rparr>"
  | t where "i < length (workers s)" "workers s ! i = (t, Dec)"
      "s' = s\<lparr>pool := (pool s)\<lparr>running := int64 (running (pool s) - 1)\<rparr>, workers := (workers s)[i := (t, Signal)]\<rparr>"
  | t where "i < length (workers s)" "workers s ! i = (t, Signal)"
      "s' = s\<lparr>pool := attemptCheck (pool s), workers := (workers s)[i := (t, Done)]\<rparr>"
proof -
  from assms have i: "i < length (workers s)" by (simp split: if_splits)
  obtain t ph where w: "workers s ! i = (t, ph)" by (cases "workers s ! i")
  show ?thesis
  proof (cases ph)
    case Body
    with assms i w that(1) show ?thesis by auto
  next
    case (Send err)
    with assms i w have "results (pool s) = []"
      by (cases "results (pool s)") (auto simp: chan_full_def chan_cap_def split: if_splits)
    with Send assms i w that(2)[of t err] show ?thesis
      by (auto simp: chan_full_def chan_cap_def split: if_splits)
  next
    case Dec
    with assms i w that(3) show ?thesis by auto
  next
    case Signal
    with assms i w that(4) show ?thesis by auto
  next
    case Done
    with assms i w show ?thesis by auto
  qed
qed

lemma holds_slot_pos: "i < length ws \<Longrightarrow> holds_slot (ws ! i) \<Longrightarrow> 0 < slots ws"
  unfolding slots_def by (auto simp: filter_empty_conv)

lemma inv_count_step:
  assumes "inv_count s" "step a s = Some s'"
  shows "inv_count s'"
proof (cases a)
  case (Run_push t)
  with assms show ?thesis by (auto simp: inv_count_def pushToQueue_def)
next
  case Run_signal
  with assms show ?thesis by (auto simp: inv_count_def attemptCheck_def split: if_splits)
next
  case Wait_call
  with assms show ?thesis by (auto simp: inv_count_def split: if_splits)
next
  case Wait_checkQueue
  from assms(1) have pre: "1 \<le> maxCount (pool s)" "maxCount (pool s) < 2 ^ 63"
      "0 \<le> running (pool s)" "running (pool s) < 2 ^ 63"
    and r: "running (pool s) = int (slots (workers s))"
      "running (pool s) \<le> maxCount (pool s)"
    by (auto simp: inv_count_def)
  from assms(2) Wait_checkQueue r pre show ?thesis
    by (auto simp: inv_count_def checkQueue_closed[OF pre] Let_def slots_append slots_Body
        split: if_splits)
next
  case Wait_terminate
  with assms show ?thesis by (auto simp: inv_count_def attemptTermination_def split: if_splits)
next
  case Recv_check
  with assms show ?thesis by (auto simp: inv_count_def split: if_splits list.splits)
next
  case Recv_result
  with assms show ?thesis by (auto simp: inv_count_def split: if_splits list.splits)
next
  case Recv_term
  with assms show ?thesis by (auto simp: inv_count_def split: if_splits list.splits)
next
  case (Worker i)
  with assms(2) have st: "step (Worker i) s = Some s'" by simp
  from st show ?thesis
  proof (cases rule: step_WorkerE)
    case (1 t)
    with slots_update[of i "workers s" "(t, Send (task_body t))"] assms(1)
    show ?thesis by (simp add: inv_count_def)
  next
    case (2 t err)
    with slots_update[of i "workers s" "(t, Dec)"] assms(1)
    show ?thesis by (simp add: inv_count_def)
  next
    case (3 t)
    from 3 have "0 < slots (workers s)" by (intro holds_slot_pos[of i]) auto
    moreover from this assms(1) have "int64 (running (pool s) - 1) = running (pool s) - 1"
      by (intro int64_id) (auto simp: inv_count_def)
    ultimately show ?thesis
      using 3 slots_update[of i "workers s" "(t, Signal)"] assms(1)
      by (simp add: inv_count_def)
  next
    case (4 t)
    with slots_update[of i "workers s" "(t, Done)"] assms(1)
    show ?thesis by (simp add: inv_count_def attemptCheck_def)
  qed
qed

subsection \<open>The constructor and the capacity bound\<close>

lemma New_Inr:
  assumes "New n = Inr p"
  shows "p = \<lparr>maxCount = (if 0 < sint n then sint n else 1), queue = [], running = 0,
              results = [], terminated = False, terminationChannel = [],
              runCheckChannel = []\<rparr>"
  using assms by (auto simp: New_def Let_def split: if_splits)

lemma New_small:
  assumes "sint n \<le> 2 ^ 44"
  shows "New n = Inr \<lparr>maxCount = (if 0 < sint n then sint n else 1), queue = [], running = 0,
              results = [], terminated = False, terminationChannel = [],
              runCheckChannel = []\<rparr>"
proof (cases "sint n \<le> 0")
  case True
  then show ?thesis by (simp add: New_def maxAlloc_def)
next
  case False
  have "sint (n * 2) = signed_take_bit 63 (sint n * 2)"
    by (simp add: sint_word_ariths)
  also have "\<dots> = sint n * 2"
    using assms False by (intro signed_take_bit_int_eq_self) auto
  finally show ?thesis using False assms by (simp add: New_def maxAlloc_def)
qed

lemma New_large:
  assumes "2 ^ 44 < sint n"
  shows "New n = Inl MakesliceCapOutOfRange"
proof -
  have pos: "\<not> sint n \<le> 0" using assms by auto
  have lt: "sint n < 2 ^ 63" using sint_lt[of n] by simp
  have eq: "sint (n * 2) = signed_take_bit 63 (sint n * 2)"
    by (simp add: sint_word_ariths)
  have "sint (n * 2) < 0 \<or> maxAlloc < 8 * sint (n * 2)"
  proof (cases "sint n < 2 ^ 62")
    case True
    have "signed_take_bit 63 (sint n * 2) = sint n * 2"
      using True pos by (intro signed_take_bit_int_eq_self) auto
    with eq assms show ?thesis by (simp add: maxAlloc_def)
  next
    case False
    then have "signed_take_bit 63 (sint n * 2) \<le> sint n * 2 - 2 ^ Suc 63"
      by (intro signed_take_bit_int_less_eq) auto
    also have "\<dots> < 0" using lt by simp
    finally have "sint (n * 2) < 0" unfolding eq .
    then show ?thesis ..
  qed
  with pos show ?thesis by (simp add: New_def)
qed

text \<open>
  Claim C5 says that \<^verbatim>\<open>New(n)\<close> returns a pool for every integer \<open>n\<close>. For
  \<open>n = 2^62\<close> the capacity \<^verbatim>\<open>maxCount*2\<close> wraps to \<open>-2^63\<close> and \<^verbatim>\<open>make\<close> panics: no
  pool is returned. (\<open>New_small\<close> and \<open>New_large\<close> above give the whole picture: the
  pool of the claim up to \<open>2^44\<close>; above it the panic, the slice being larger than
  \<^verbatim>\<open>maxAlloc\<close> and, from \<open>2^62\<close> on, its capacity negative.)
\<close>

theorem New_overflow: "New (2 ^ 62) = Inl MakesliceCapOutOfRange"
  by (simp add: New_def)

lemma inv_count_start: "New n = Inr p \<Longrightarrow> inv_count (start p)"
  using sint_lt[of n] by (auto dest!: New_Inr simp: inv_count_def start_def slots_def)

lemma maxCount_step:
  assumes "inv_count s" "step a s = Some s'"
  shows "maxCount (pool s') = maxCount (pool s)"
proof (cases a)
  case Wait_checkQueue
  from assms(1) have pre: "1 \<le> maxCount (pool s)" "maxCount (pool s) < 2 ^ 63"
      "0 \<le> running (pool s)" "running (pool s) < 2 ^ 63"
    by (auto simp: inv_count_def)
  from assms(2) Wait_checkQueue show ?thesis
    by (auto simp: checkQueue_closed[OF pre] Let_def split: if_splits)
next
  case (Worker i)
  with assms(2) have "step (Worker i) s = Some s'" by simp
  then show ?thesis by (cases rule: step_WorkerE) (simp_all add: attemptCheck_def)
qed (use assms in \<open>auto simp: pushToQueue_def attemptCheck_def attemptTermination_def
      split: if_splits list.splits\<close>)

lemma inv_count_run:
  "run as s = Some s' \<Longrightarrow> inv_count s \<Longrightarrow> inv_count s' \<and> maxCount (pool s') = maxCount (pool s)"
proof (induction as arbitrary: s)
  case Nil
  then show ?case by simp
next
  case (Cons a as)
  then obtain s1 where s1: "step a s = Some s1" "run as s1 = Some s'"
    by (auto split: option.splits)
  with Cons.prems have "inv_count s1" "maxCount (pool s1) = maxCount (pool s)"
    by (auto intro: inv_count_step maxCount_step)
  with Cons.IH[OF s1(2)] show ?case by simp
qed

lemma execE:
  assumes "exec n as = Some s"
  obtains p where "New n = Inr p" "run as (start p) = Some s"
  using assms by (auto simp: exec_def split: sum.splits)

text \<open>
  Claim C2 (capacity bound): in every state the program reaches after \<^verbatim>\<open>New(n)\<close>, under
  every schedule of \<^verbatim>\<open>Run\<close>, \<^verbatim>\<open>Wait\<close> with its \<^verbatim>\<open>checkQueue\<close>, and the goroutines of
  the tasks, \<open>0 \<le> running \<le> maxCount\<close>, where \<open>maxCount\<close> is the clamped limit fixed
  by \<^verbatim>\<open>New\<close> (at least 1); and \<open>running\<close> is the number of goroutines that hold a
  place, so no more than \<open>maxCount\<close> tasks run at once.
\<close>

theorem running_bounded:
  assumes "exec n as = Some s"
  shows "0 \<le> running (pool s) \<and> running (pool s) \<le> maxCount (pool s) \<and>
         1 \<le> maxCount (pool s) \<and> maxCount (pool s) = (if 0 < sint n then sint n else 1) \<and>
         running (pool s) = int (slots (workers s))"
proof -
  from assms obtain p where p: "New n = Inr p" "run as (start p) = Some s"
    by (rule execE)
  from inv_count_run[OF p(2) inv_count_start[OF p(1)]] New_Inr[OF p(1)]
  show ?thesis by (simp add: inv_count_def start_def)
qed

lemmas eval_defs = exec_def New_def maxAlloc_def start_def pushToQueue_def attemptCheck_def
  attemptTermination_def checkQueue_def checkQueue_loop.simps int64_def try_send_def chan_full_def chan_cap_def
  task_result_def slots_def


theorem running_bounded_witness:
  "\<exists>s. exec 2 [Run_push (Task 1 None), Run_push (Task 2 None), Run_push (Task 3 None),
            Wait_call, Wait_checkQueue, Worker 0] = Some s \<and>
     running (pool s) = 2 \<and> running (pool s) \<le> maxCount (pool s) \<and>
     running (pool s) = int (slots (workers s))"
proof -
  let ?as = "[Run_push (Task 1 None), Run_push (Task 2 None), Run_push (Task 3 None),
            Wait_call, Wait_checkQueue, Worker 0]"
  obtain s where s: "exec 2 ?as = Some s" "running (pool s) = 2"
    by (simp add: eval_defs)
  from running_bounded[OF s(1)] s show ?thesis by simp
qed

subsection \<open>What checkQueue does\<close>

lemma step_checkQueueE:
  assumes "inv_count s" "step Wait_checkQueue s = Some s'"
  obtains (idle) "wait_pc s = Checking"
      "terminated (pool s) \<or> maxCount (pool s) \<le> running (pool s)"
      "s' = s\<lparr>wait_pc := Selecting\<rparr>"
  | (launch) k where "wait_pc s = Checking" "\<not> terminated (pool s)"
      "running (pool s) < maxCount (pool s)"
      "k = min (nat (maxCount (pool s) - running (pool s))) (length (queue (pool s)))"
      "s' = s\<lparr>pool := (pool s)\<lparr>queue := drop k (queue (pool s)),
                                  running := running (pool s) + int k\<rparr>,
               workers := workers s @ map (\<lambda>t. (t, Body)) (take k (queue (pool s))),
               wait_pc := (if queue (pool s) = [] \<and> running (pool s) = 0
                           then Terminating else Selecting)\<rparr>"
proof -
  from assms(1) have pre: "1 \<le> maxCount (pool s)" "maxCount (pool s) < 2 ^ 63"
      "0 \<le> running (pool s)" "running (pool s) < 2 ^ 63"
    by (auto simp: inv_count_def)
  from assms(2) have pc: "wait_pc s = Checking" by (simp split: if_splits)
  show ?thesis
  proof (cases "terminated (pool s) \<or> maxCount (pool s) \<le> running (pool s)")
    case True
    with assms(2) pc have "s' = s\<lparr>wait_pc := Selecting\<rparr>"
      by (auto simp: checkQueue_closed[OF pre])
    with pc True show ?thesis by (rule idle)
  next
    case False
    with assms(2) pc show ?thesis
      by (intro launch[OF pc, of "min (nat (maxCount (pool s) - running (pool s))) (length (queue (pool s)))"])
         (auto simp: checkQueue_closed[OF pre] Let_def)
  qed
qed

text \<open>
  Claim C9: for a pool that is not terminated (with a limit of at least 1 and a running
  count that is not negative, both 64-bit values), one call of \<^verbatim>\<open>checkQueue\<close> with
  \<open>maxCount - running > 0\<close> starts exactly \<open>k = min (length queue) (maxCount - running)\<close>
  tasks, namely the first \<open>k\<close> of the queue in their order, removes them from the queue
  and adds \<open>k\<close> to \<open>running\<close>; with \<open>maxCount - running \<le> 0\<close> it starts nothing and
  leaves the queue and \<open>running\<close> as they are.
\<close>

theorem checkQueue_launches:
  assumes "1 \<le> maxCount p" "maxCount p < 2 ^ 63" "0 \<le> running p" "running p < 2 ^ 63"
    and "\<not> terminated p" and "checkQueue p = (p', started, flag)"
  shows "(0 < maxCount p - running p \<longrightarrow>
            (let k = min (length (queue p)) (nat (maxCount p - running p)) in
             length started = k \<and> started = take k (queue p) \<and>
             queue p' = drop k (queue p) \<and> running p' = running p + int k)) \<and>
         (maxCount p - running p \<le> 0 \<longrightarrow>
            started = [] \<and> queue p' = queue p \<and> running p' = running p)"
  using assms(5,6) unfolding checkQueue_closed[OF assms(1-4)]
  by (auto simp: Let_def min.commute split: if_splits)

theorem checkQueue_launches_witness:
  "checkQueue \<lparr>maxCount = 2, queue = [Task 1 None, Task 2 None, Task 3 None], running = 0,
      results = [], terminated = False, terminationChannel = [], runCheckChannel = []\<rparr> =
     (\<lparr>maxCount = 2, queue = [Task 3 None], running = 2,
      results = [], terminated = False, terminationChannel = [], runCheckChannel = []\<rparr>,
      [Task 1 None, Task 2 None], False) \<and>
   [Task 1 None, Task 2 None] = take 2 [Task 1 None, Task 2 None, Task 3 None] \<and>
   [Task 3 None] = drop 2 [Task 1 None, Task 2 None, Task 3 None] \<and>
   checkQueue \<lparr>maxCount = 2, queue = [Task 3 None], running = 2,
      results = [], terminated = False, terminationChannel = [], runCheckChannel = []\<rparr> =
     (\<lparr>maxCount = 2, queue = [Task 3 None], running = 2,
      results = [], terminated = False, terminationChannel = [], runCheckChannel = []\<rparr>,
      [], False)"
proof -
  let ?p = "\<lparr>maxCount = 2, queue = [Task 1 None, Task 2 None, Task 3 None], running = 0,
      results = [], terminated = False, terminationChannel = [], runCheckChannel = []\<rparr>"
  let ?p' = "\<lparr>maxCount = 2, queue = [Task 3 None], running = 2,
      results = [], terminated = False, terminationChannel = [], runCheckChannel = []\<rparr>"
  have c: "checkQueue ?p = (?p', [Task 1 None, Task 2 None], False)"
    by (simp add: eval_defs)
  obtain q ts f where d: "checkQueue ?p' = (q, ts, f)"
    by (cases "checkQueue ?p'")
  from checkQueue_launches[of ?p' q ts f, OF _ _ _ _ _ d]
  have "ts = []" "queue q = [Task 3 None]" "running q = 2" by simp_all
  moreover from d have "f = False" "maxCount q = 2" "results q = []" "\<not> terminated q"
      "terminationChannel q = []" "runCheckChannel q = []"
    by (auto simp: eval_defs)
  ultimately have "q = ?p'" by (cases q) simp
  with d \<open>ts = []\<close> \<open>f = False\<close> have d': "checkQueue ?p' = (?p', [], False)" by simp
  from checkQueue_launches[of ?p ?p' "[Task 1 None, Task 2 None]" False, OF _ _ _ _ _ c] c d'
  show ?thesis by simp
qed

lemma terminated_step:
  assumes "terminated (pool s)" "step a s = Some s'"
  shows "terminated (pool s') \<and> map fst (workers s') = map fst (workers s) \<and>
         queue (pool s') = queue (pool s) @ pushed [a]"
proof (cases a)
  case (Worker i)
  with assms(2) have "step (Worker i) s = Some s'" by simp
  then show ?thesis using assms(1) Worker
    by (cases rule: step_WorkerE)
       (simp_all add: attemptCheck_def map_update, (metis fst_conv list_update_id map_update)+)
qed (use assms in \<open>auto simp: pushToQueue_def attemptCheck_def attemptTermination_def
      checkQueue_def split: if_splits list.splits\<close>)

lemma pushed_Cons: "pushed (a # as) = pushed [a] @ pushed as"
  by (cases a) simp_all

text \<open>
  Claim C10: on a terminated pool \<^verbatim>\<open>checkQueue\<close> changes nothing and starts no task.
  So from a state with the flag set, under every schedule, the flag stays set, no
  goroutine is started any more, and every task that \<^verbatim>\<open>Run\<close> appends stays in the queue.
\<close>

theorem terminated_checkQueue_noop:
  assumes "terminated (pool s)" "run as s = Some s'"
  shows "checkQueue (pool s) = (pool s, [], False) \<and> terminated (pool s') \<and>
         map fst (workers s') = map fst (workers s) \<and>
         queue (pool s') = queue (pool s) @ pushed as"
proof -
  have "terminated (pool s') \<and> map fst (workers s') = map fst (workers s) \<and>
         queue (pool s') = queue (pool s) @ pushed as"
    using assms
  proof (induction as arbitrary: s)
    case Nil
    then show ?case by simp
  next
    case (Cons a as)
    then obtain s1 where s1: "step a s = Some s1" "run as s1 = Some s'"
      by (auto split: option.splits)
    from terminated_step[OF Cons.prems(1) s1(1)] Cons.IH[OF _ s1(2)]
    show ?case by (simp add: pushed_Cons[of a as])
  qed
  with assms(1) show ?thesis by (simp add: checkQueue_def)
qed

theorem terminated_checkQueue_noop_witness:
  "exec 1 [Wait_call, Wait_checkQueue, Wait_terminate] =
     Some \<lparr>pool = \<lparr>maxCount = 1, queue = [], running = 0, results = [], terminated = True,
                    terminationChannel = [True], runCheckChannel = []\<rparr>,
            workers = [], callers = 0, wait_pc = Selecting, wait_results = [],
            submitted = [], term_sends = 1\<rparr> \<and>
   run [Run_push (Task 7 None), Run_signal, Recv_check, Wait_checkQueue]
     \<lparr>pool = \<lparr>maxCount = 1, queue = [], running = 0, results = [], terminated = True,
              terminationChannel = [True], runCheckChannel = []\<rparr>,
      workers = [], callers = 0, wait_pc = Selecting, wait_results = [],
      submitted = [], term_sends = 1\<rparr> =
     Some \<lparr>pool = \<lparr>maxCount = 1, queue = [Task 7 None], running = 0, results = [],
                    terminated = True, terminationChannel = [True], runCheckChannel = []\<rparr>,
            workers = [], callers = 0, wait_pc = Selecting, wait_results = [],
            submitted = [Task 7 None], term_sends = 1\<rparr>"
proof -
  let ?s = "\<lparr>pool = \<lparr>maxCount = 1, queue = [], running = 0, results = [], terminated = True,
              terminationChannel = [True], runCheckChannel = []\<rparr>,
      workers = [], callers = 0, wait_pc = Selecting, wait_results = [],
      submitted = [], term_sends = 1\<rparr>"
  let ?as = "[Run_push (Task 7 None), Run_signal, Recv_check, Wait_checkQueue]"
  have e: "exec 1 [Wait_call, Wait_checkQueue, Wait_terminate] = Some ?s"
    by (simp add: eval_defs)
  have t: "terminated (pool ?s)" by simp
  obtain s' where s': "run ?as ?s = Some s'"
    by (simp add: eval_defs)
  from terminated_checkQueue_noop[OF t s'] have
    "workers s' = []" "queue (pool s') = [Task 7 None]" "terminated (pool s')"
    by simp_all
  moreover from s' have "maxCount (pool s') = 1" "running (pool s') = 0" "results (pool s') = []"
    "terminationChannel (pool s') = [True]" "runCheckChannel (pool s') = []" "callers s' = 0"
    "wait_pc s' = Selecting" "wait_results s' = []" "submitted s' = [Task 7 None]"
    "term_sends s' = 1"
    by (auto simp: eval_defs)
  ultimately have "s' = \<lparr>pool = \<lparr>maxCount = 1, queue = [Task 7 None], running = 0, results = [],
                    terminated = True, terminationChannel = [True], runCheckChannel = []\<rparr>,
            workers = [], callers = 0, wait_pc = Selecting, wait_results = [],
            submitted = [Task 7 None], term_sends = 1\<rparr>"
    by (cases s', cases "pool s'") simp
  with e s' show ?thesis by simp
qed

subsection \<open>Admission in the order of submission\<close>

lemma worker_step_fst:
  "i < length ws \<Longrightarrow> ws ! i = (t, ph) \<Longrightarrow> map fst (ws[i := (t, ph')]) = map fst ws"
  by (metis fst_conv list_update_id map_update)

lemma slots_zero_iff: "slots ws = 0 \<longleftrightarrow> (\<forall>w \<in> set ws. \<not> holds_slot w)"
  by (auto simp: slots_def filter_empty_conv)

lemma inv_fifo_step:
  assumes "inv_count s" "inv_fifo s" "step a s = Some s'"
  shows "inv_fifo s'"
proof (cases a)
  case (Run_push t)
  with assms show ?thesis by (auto simp: inv_fifo_def pushToQueue_def)
next
  case Run_signal
  with assms show ?thesis by (auto simp: inv_fifo_def attemptCheck_def split: if_splits)
next
  case Wait_call
  with assms show ?thesis by (auto simp: inv_fifo_def split: if_splits)
next
  case Wait_checkQueue
  with assms(3) have "step Wait_checkQueue s = Some s'" by simp
  with assms(1) show ?thesis
  proof (cases rule: step_checkQueueE)
    case idle
    with assms(2) show ?thesis by (simp add: inv_fifo_def)
  next
    case (launch k)
    have ws: "workers s' = workers s @ map (\<lambda>t. (t, Body)) (take k (queue (pool s)))"
      and q: "queue (pool s') = drop k (queue (pool s))"
      and sub: "submitted s' = submitted s"
      and m: "maxCount (pool s') = maxCount (pool s)"
      using launch(5) by simp_all
    have a: "map fst (workers s') @ queue (pool s') = submitted s'"
      using assms(2) unfolding ws q sub by (simp add: inv_fifo_def comp_def)
    have b: "slots (butlast (workers s')) = 0" if one: "maxCount (pool s) = 1"
    proof (cases "take k (queue (pool s))")
      case Nil
      from assms(2) one show ?thesis unfolding ws Nil by (simp add: inv_fifo_def)
    next
      case (Cons t ts)
      then have "0 < k" by (cases k) auto
      moreover from launch(3,4) have "int k \<le> maxCount (pool s) - running (pool s)"
        by linarith
      moreover from assms(1) have "0 \<le> running (pool s)" by (simp add: inv_count_def)
      ultimately have r: "running (pool s) = 0" "k = 1"
        using one by auto
      with Cons have "ts = []" by (cases "queue (pool s)") auto
      moreover from r assms(1) have "slots (workers s) = 0" by (simp add: inv_count_def)
      ultimately show ?thesis unfolding ws Cons by (simp add: butlast_append)
    qed
    from a b m show ?thesis by (simp add: inv_fifo_def)
  qed
next
  case Wait_terminate
  with assms show ?thesis by (auto simp: inv_fifo_def attemptTermination_def split: if_splits)
next
  case Recv_check
  with assms show ?thesis by (auto simp: inv_fifo_def split: if_splits list.splits)
next
  case Recv_result
  with assms show ?thesis by (auto simp: inv_fifo_def split: if_splits list.splits)
next
  case Recv_term
  with assms show ?thesis by (auto simp: inv_fifo_def split: if_splits list.splits)
next
  case (Worker i)
  with assms(3) have st: "step (Worker i) s = Some s'" by simp
  have mono: "slots (butlast (ws[i := w])) = 0"
    if "slots (butlast ws) = 0" "holds_slot w \<longrightarrow> holds_slot (ws ! i)" "i < length ws"
    for ws :: "(task \<times> phase) list" and w
  proof (cases "i = length ws - 1")
    case True
    with that show ?thesis by (simp add: butlast_list_update)
  next
    case False
    with that have i: "i < length (butlast ws)" by simp
    then have "butlast ws ! i = ws ! i" by (simp add: nth_butlast)
    with that(1) i have "\<not> holds_slot (ws ! i)"
      by (metis nth_mem slots_zero_iff)
    with that(2) have "\<not> holds_slot w" by simp
    with that(1) show ?thesis
      unfolding butlast_list_update slots_zero_iff using False
      by (auto dest!: set_update_subset_insert[THEN subsetD])
  qed
  from st show ?thesis
  proof (cases rule: step_WorkerE)
    case (1 t)
    with assms(2) worker_step_fst[OF 1(1,2)] mono[of "workers s" "(t, Send (task_body t))"]
    show ?thesis by (simp add: inv_fifo_def)
  next
    case (2 t err)
    with assms(2) worker_step_fst[OF 2(1,2)] mono[of "workers s" "(t, Dec)"]
    show ?thesis by (simp add: inv_fifo_def)
  next
    case (3 t)
    with assms(2) worker_step_fst[OF 3(1,2)] mono[of "workers s" "(t, Signal)"]
    show ?thesis by (simp add: inv_fifo_def)
  next
    case (4 t)
    with assms(2) worker_step_fst[OF 4(1,2)] mono[of "workers s" "(t, Done)"]
    show ?thesis by (simp add: inv_fifo_def attemptCheck_def)
  qed
qed

lemma inv_fifo_start: "New n = Inr p \<Longrightarrow> inv_fifo (start p)"
  by (auto dest!: New_Inr simp: inv_fifo_def start_def slots_def)

lemma submitted_step: "step a s = Some s' \<Longrightarrow> submitted s' = submitted s @ pushed [a]"
  by (cases a) (auto split: if_splits list.splits option.splits prod.splits)

lemma submitted_run: "run as s = Some s' \<Longrightarrow> submitted s' = submitted s @ pushed as"
proof (induction as arbitrary: s)
  case Nil
  then show ?case by simp
next
  case (Cons a as)
  then obtain s1 where s1: "step a s = Some s1" "run as s1 = Some s'"
    by (auto split: option.splits)
  from submitted_step[OF s1(1)] Cons.IH[OF s1(2)] show ?case
    by (simp add: pushed_Cons[of a as])
qed

lemma inv_fifo_run:
  "run as s = Some s' \<Longrightarrow> inv_count s \<Longrightarrow> inv_fifo s \<Longrightarrow> inv_fifo s'"
proof (induction as arbitrary: s)
  case Nil
  then show ?case by simp
next
  case (Cons a as)
  then obtain s1 where s1: "step a s = Some s1" "run as s1 = Some s'"
    by (auto split: option.splits)
  with Cons.prems have "inv_count s1" "inv_fifo s1"
    by (auto intro: inv_count_step inv_fifo_step)
  with Cons.IH[OF s1(2)] show ?case by simp
qed

lemma not_holds_slot: "\<not> holds_slot w \<longleftrightarrow> snd w = Signal \<or> snd w = Done"
  by (cases w rule: holds_slot.cases) simp_all

text \<open>
  Claim C6 (FIFO admission): under every schedule, the tasks started so far, in the
  order of their \<^verbatim>\<open>go\<close> statements, followed by the tasks still in the queue, are the
  tasks given to \<^verbatim>\<open>Run\<close> in the order of their \<^verbatim>\<open>pushToQueue\<close>: \<^verbatim>\<open>Run\<close> appends at the
  tail and \<^verbatim>\<open>checkQueue\<close> starts from the head. With limit 1, every started task but the
  last one has finished its body and given its place back (it is past line 114), so the
  tasks execute one after the other in the order of submission.
\<close>

theorem fifo_admission:
  assumes "exec n as = Some s"
  shows "map fst (workers s) @ queue (pool s) = pushed as \<and>
         (maxCount (pool s) = 1 \<longrightarrow>
            (\<forall>w \<in> set (butlast (workers s)). snd w = Signal \<or> snd w = Done))"
proof -
  from assms obtain p where p: "New n = Inr p" "run as (start p) = Some s"
    by (rule execE)
  have "inv_fifo s"
    using p by (intro inv_fifo_run[OF p(2)] inv_count_start inv_fifo_start)
  moreover have "submitted s = pushed as"
    using submitted_run[OF p(2)] by (simp add: start_def)
  ultimately show ?thesis
    by (simp add: inv_fifo_def slots_zero_iff not_holds_slot)
qed


theorem fifo_admission_witness:
  "\<exists>s. exec 1 [Run_push (Task 1 None), Run_push (Task 2 (Some ''e'')), Run_push (Task 3 None),
        Wait_call, Wait_checkQueue, Worker 0, Worker 0, Worker 0, Worker 0,
        Recv_check, Wait_checkQueue, Worker 1] = Some s \<and>
     maxCount (pool s) = 1 \<and>
     workers s = [(Task 1 None, Done), (Task 2 (Some ''e''), Send (Some ''e''))] \<and>
     queue (pool s) = [Task 3 None] \<and>
     map fst (workers s) @ queue (pool s) = [Task 1 None, Task 2 (Some ''e''), Task 3 None]"
proof -
  let ?as = "[Run_push (Task 1 None), Run_push (Task 2 (Some ''e'')), Run_push (Task 3 None),
        Wait_call, Wait_checkQueue, Worker 0, Worker 0, Worker 0, Worker 0,
        Recv_check, Wait_checkQueue, Worker 1]"
  obtain s where s: "exec 1 ?as = Some s" "maxCount (pool s) = 1"
      "workers s = [(Task 1 None, Done), (Task 2 (Some ''e''), Send (Some ''e''))]"
      "queue (pool s) = [Task 3 None]"
    by (simp add: eval_defs)
  from fifo_admission[OF s(1)] s show ?thesis by simp
qed

subsection \<open>Outcomes\<close>

lemma delivered_Body: "filter delivered (map (\<lambda>t. (t, Body)) ts) = []"
  by (induction ts) simp_all

lemma Send_update:
  assumes "\<forall>t err. (t, Send err) \<in> set ws \<longrightarrow> err = task_body t"
    and "\<forall>t err. w = (t, Send err) \<longrightarrow> err = task_body t"
  shows "\<forall>t err. (t, Send err) \<in> set (ws[i := w]) \<longrightarrow> err = task_body t"
  using assms by (auto dest!: set_update_subset_insert[THEN subsetD])

lemma inv_results_workerI:
  assumes inv: "inv_results s" and i: "i < length (workers s)"
    and old: "workers s ! i = (t, ph)"
    and new: "workers s' = (workers s)[i := (t, ph')]"
    and send: "\<forall>err. ph' = Send err \<longrightarrow> err = task_body t"
    and mono: "delivered (t, ph) \<longrightarrow> delivered (t, ph')"
    and res: "mset (wait_results s') + mset (results (pool s')) =
       mset (wait_results s) + mset (results (pool s)) +
       (if delivered (t, ph') \<and> \<not> delivered (t, ph) then {#task_result (task_body t)#} else {#})"
  shows "inv_results s'"
proof -
  let ?g = "\<lambda>w. task_result (task_body (fst w))"
  from inv have S: "\<forall>t err. (t, Send err) \<in> set (workers s) \<longrightarrow> err = task_body t"
    and M: "mset (wait_results s) + mset (results (pool s)) =
        mset (map ?g (filter delivered (workers s)))"
    by (simp_all add: inv_results_def)
  have S': "\<forall>t err. (t, Send err) \<in> set (workers s') \<longrightarrow> err = task_body t"
    unfolding new using send by (intro Send_update[OF S]) simp
  have U: "mset (map ?g (filter delivered (workers s'))) +
       (if delivered (t, ph) then {#task_result (task_body t)#} else {#}) =
     mset (map ?g (filter delivered (workers s))) +
       (if delivered (t, ph') then {#task_result (task_body t)#} else {#})"
    using delivered_update[OF i, of ?g "(t, ph')"] unfolding new old
    by (auto split: if_splits)
  have "mset (wait_results s') + mset (results (pool s')) =
      mset (map ?g (filter delivered (workers s')))"
  proof (cases "delivered (t, ph)")
    case True
    with mono have "delivered (t, ph')" by simp
    with True U res M show ?thesis by simp
  next
    case False
    with U res M show ?thesis by (cases "delivered (t, ph')") simp_all
  qed
  with S' show ?thesis unfolding inv_results_def by blast
qed

lemma inv_results_step:
  assumes "inv_count s" "inv_results s" "step a s = Some s'"
  shows "inv_results s'"
proof (cases a)
  case (Run_push t)
  with assms show ?thesis by (auto simp: inv_results_def pushToQueue_def)
next
  case Run_signal
  with assms show ?thesis by (auto simp: inv_results_def attemptCheck_def split: if_splits)
next
  case Wait_call
  with assms show ?thesis by (auto simp: inv_results_def split: if_splits)
next
  case Wait_checkQueue
  with assms(3) have "step Wait_checkQueue s = Some s'" by simp
  with assms(1) show ?thesis
  proof (cases rule: step_checkQueueE)
    case idle
    with assms(2) show ?thesis by (simp add: inv_results_def)
  next
    case (launch k)
    have ws: "workers s' = workers s @ map (\<lambda>t. (t, Body)) (take k (queue (pool s)))"
      and r: "results (pool s') = results (pool s)" "wait_results s' = wait_results s"
      using launch(5) by simp_all
    from assms(2) show ?thesis
      unfolding inv_results_def ws r by (auto simp: delivered_Body)
  qed
next
  case Wait_terminate
  with assms show ?thesis
    by (auto simp: inv_results_def attemptTermination_def split: if_splits)
next
  case Recv_check
  with assms show ?thesis by (auto simp: inv_results_def split: if_splits list.splits)
next
  case Recv_result
  with assms show ?thesis by (auto simp: inv_results_def split: if_splits list.splits)
next
  case Recv_term
  with assms show ?thesis by (auto simp: inv_results_def split: if_splits list.splits)
next
  case (Worker i)
  with assms(3) have st: "step (Worker i) s = Some s'" by simp
  from st show ?thesis
  proof (cases rule: step_WorkerE)
    case (1 t)
    from assms(2) 1(1,2) show ?thesis
      by (rule inv_results_workerI[where ph' = "Send (task_body t)"]) (simp_all add: 1(3))
  next
    case (2 t err)
    from 2(1,2) have "(t, Send err) \<in> set (workers s)" by (metis nth_mem)
    with assms(2) have err: "err = task_body t" by (simp add: inv_results_def)
    from assms(2) 2(1,2) show ?thesis
      by (rule inv_results_workerI[where ph' = Dec]) (simp_all add: 2(3,4) err)
  next
    case (3 t)
    from assms(2) 3(1,2) show ?thesis
      by (rule inv_results_workerI[where ph' = Signal]) (simp_all add: 3(3))
  next
    case (4 t)
    from assms(2) 4(1,2) show ?thesis
      by (rule inv_results_workerI[where ph' = Done]) (simp_all add: 4(3) attemptCheck_def)
  qed
qed

lemma inv_results_start: "New n = Inr p \<Longrightarrow> inv_results (start p)"
  by (auto dest!: New_Inr simp: inv_results_def start_def)

lemma inv_results_run:
  "run as s = Some s' \<Longrightarrow> inv_count s \<Longrightarrow> inv_results s \<Longrightarrow> inv_results s'"
proof (induction as arbitrary: s)
  case Nil
  then show ?case by simp
next
  case (Cons a as)
  then obtain s1 where s1: "step a s = Some s1" "run as s1 = Some s'"
    by (auto split: option.splits)
  with Cons.prems have "inv_count s1" "inv_results s1"
    by (auto intro: inv_count_step inv_results_step)
  with Cons.IH[OF s1(2)] show ?case by simp
qed

lemma task_result_cases:
  "task_result err = (case err of None \<Rightarrow> \<lparr>Success = True, Err = None\<rparr>
                       | Some e \<Rightarrow> \<lparr>Success = False, Err = Some e\<rparr>)"
  by (simp add: task_result_def split: option.splits)

text \<open>
  Claim C3 (outcome fidelity): under every schedule, the outcomes recorded so far (those
  \<^verbatim>\<open>Wait\<close> has collected and the one that may sit in the buffer of \<^verbatim>\<open>results\<close>) are, with
  multiplicity, one outcome for every started task whose goroutine has done its send:
  \<open>{Success: true, Err: nil}\<close> when the body returned \<^verbatim>\<open>nil\<close> and \<open>{Success: false, Err: E}\<close>
  when it returned the error \<open>E\<close>. Hence in every recorded outcome \<open>Err\<close> is \<^verbatim>\<open>nil\<close>
  exactly when \<open>Success\<close> is true.
\<close>

theorem outcome_fidelity:
  assumes "exec n as = Some s"
  shows "mset (wait_results s) + mset (results (pool s)) =
           mset (map (\<lambda>w. case task_body (fst w) of
                             None \<Rightarrow> \<lparr>Success = True, Err = None\<rparr>
                           | Some e \<Rightarrow> \<lparr>Success = False, Err = Some e\<rparr>)
                     (filter delivered (workers s))) \<and>
         (\<forall>r \<in> set (wait_results s @ results (pool s)). (Err r = None) = Success r)"
proof -
  from assms obtain p where p: "New n = Inr p" "run as (start p) = Some s"
    by (rule execE)
  have "inv_results s"
    using p by (intro inv_results_run[OF p(2)] inv_count_start inv_results_start)
  then have M: "mset (wait_results s) + mset (results (pool s)) =
      mset (map (\<lambda>w. task_result (task_body (fst w))) (filter delivered (workers s)))"
    by (simp add: inv_results_def)
  have "(Err r = None) = Success r" if "r \<in> set (wait_results s @ results (pool s))" for r
  proof -
    from that have "r \<in># mset (wait_results s) + mset (results (pool s))" by auto
    with M obtain w where "r = task_result (task_body (fst w))" by auto
    then show ?thesis by (simp add: task_result_def)
  qed
  with M show ?thesis by (simp add: task_result_cases)
qed


theorem outcome_fidelity_witness:
  "\<exists>s. exec 2 [Run_push (Task 1 None), Run_push (Task 2 (Some ''boom'')),
        Wait_call, Wait_checkQueue, Worker 0, Worker 0, Recv_result, Worker 1, Worker 1] = Some s \<and>
     workers s = [(Task 1 None, Dec), (Task 2 (Some ''boom''), Dec)] \<and>
     wait_results s = [\<lparr>Success = True, Err = None\<rparr>] \<and>
     results (pool s) = [\<lparr>Success = False, Err = Some ''boom''\<rparr>] \<and>
     (\<forall>r \<in> set (wait_results s @ results (pool s)). (Err r = None) = Success r)"
proof -
  let ?as = "[Run_push (Task 1 None), Run_push (Task 2 (Some ''boom'')),
        Wait_call, Wait_checkQueue, Worker 0, Worker 0, Recv_result, Worker 1, Worker 1]"
  obtain s where s: "exec 2 ?as = Some s"
      "workers s = [(Task 1 None, Dec), (Task 2 (Some ''boom''), Dec)]"
      "wait_results s = [\<lparr>Success = True, Err = None\<rparr>]"
      "results (pool s) = [\<lparr>Success = False, Err = Some ''boom''\<rparr>]"
    by (simp add: eval_defs)
  from outcome_fidelity[OF s(1)] s show ?thesis by simp
qed

subsection \<open>Termination\<close>

lemma inv_term_step:
  assumes "inv_count s" "inv_term s" "step a s = Some s'"
  shows "inv_term s'"
proof (cases a)
  case (Run_push t)
  with assms show ?thesis by (auto simp: inv_term_def pushToQueue_def)
next
  case Run_signal
  with assms show ?thesis by (auto simp: inv_term_def attemptCheck_def split: if_splits)
next
  case Wait_call
  with assms show ?thesis by (auto simp: inv_term_def split: if_splits)
next
  case Wait_checkQueue
  with assms(3) have "step Wait_checkQueue s = Some s'" by simp
  with assms(1) show ?thesis
  proof (cases rule: step_checkQueueE)
    case idle
    with assms(2) show ?thesis by (auto simp: inv_term_def)
  next
    case (launch k)
    from launch(1,2,4) assms(2) show ?thesis
      unfolding launch(5) by (auto simp: inv_term_def)
  qed
next
  case Wait_terminate
  with assms show ?thesis
    by (auto simp: inv_term_def attemptTermination_def try_send_def chan_full_def chan_cap_def
        split: if_splits)
next
  case Recv_check
  with assms show ?thesis by (auto simp: inv_term_def split: if_splits list.splits)
next
  case Recv_result
  with assms show ?thesis by (auto simp: inv_term_def split: if_splits list.splits)
next
  case Recv_term
  with assms show ?thesis by (auto simp: inv_term_def split: if_splits list.splits)
next
  case (Worker i)
  with assms(3) have st: "step (Worker i) s = Some s'" by simp
  from st show ?thesis
  proof (cases rule: step_WorkerE)
    case (1 t)
    with assms(2) show ?thesis by (auto simp: inv_term_def)
  next
    case (2 t err)
    with assms(2) show ?thesis by (auto simp: inv_term_def)
  next
    case (3 t)
    from 3 have "0 < slots (workers s)" by (intro holds_slot_pos[of i]) auto
    with assms(1) have "0 < running (pool s)" by (simp add: inv_count_def)
    with assms(2) 3 show ?thesis by (auto simp: inv_term_def)
  next
    case (4 t)
    with assms(2) show ?thesis by (auto simp: inv_term_def attemptCheck_def)
  qed
qed

lemma inv_term_start: "New n = Inr p \<Longrightarrow> inv_term (start p)"
  by (auto dest!: New_Inr simp: inv_term_def start_def)

lemma inv_term_run:
  "run as s = Some s' \<Longrightarrow> inv_count s \<Longrightarrow> inv_term s \<Longrightarrow> inv_term s'"
proof (induction as arbitrary: s)
  case Nil
  then show ?case by simp
next
  case (Cons a as)
  then obtain s1 where s1: "step a s = Some s1" "run as s1 = Some s'"
    by (auto split: option.splits)
  with Cons.prems have "inv_count s1" "inv_term s1"
    by (auto intro: inv_count_step inv_term_step)
  with Cons.IH[OF s1(2)] show ?case by simp
qed

lemma returned_step: "step a s = Some s' \<Longrightarrow> wait_pc s = Returned \<Longrightarrow> wait_pc s' = Returned"
  by (cases a) (auto split: if_splits list.splits option.splits prod.splits)

lemma flag_set_step:
  assumes "inv_count s" "inv_term s" "step a s = Some s'"
    and "\<not> terminated (pool s)" "terminated (pool s')"
  shows "a = Wait_terminate \<and> wait_pc s = Terminating \<and> running (pool s) = 0 \<and>
         wait_pc s' = Selecting"
proof (cases a)
  case Wait_checkQueue
  with assms(3) have "step Wait_checkQueue s = Some s'" by simp
  with assms(1) show ?thesis using assms(4,5) by (cases rule: step_checkQueueE) auto
next
  case Wait_terminate
  with assms(2,3) show ?thesis by (auto simp: inv_term_def split: if_splits)
next
  case (Worker i)
  with assms(3) have "step (Worker i) s = Some s'" by simp
  then show ?thesis using assms(4,5)
    by (cases rule: step_WorkerE) (auto simp: attemptCheck_def)
qed (use assms(3,4,5) in \<open>auto simp: pushToQueue_def attemptCheck_def
      split: if_splits list.splits\<close>)

lemma flag_kept_step:
  assumes "inv_count s" "step a s = Some s'" "terminated (pool s') = terminated (pool s)"
  shows "terminationChannel (pool s') = terminationChannel (pool s) \<or>
         (a = Recv_term \<and> wait_pc s' = Returned \<and>
          terminationChannel (pool s) = hd (terminationChannel (pool s)) # terminationChannel (pool s'))"
proof (cases a)
  case Wait_checkQueue
  with assms(2) have "step Wait_checkQueue s = Some s'" by simp
  with assms(1) show ?thesis by (cases rule: step_checkQueueE) auto
next
  case (Worker i)
  with assms(2) have "step (Worker i) s = Some s'" by simp
  then show ?thesis by (cases rule: step_WorkerE) (auto simp: attemptCheck_def)
qed (use assms(2,3) in \<open>auto simp: pushToQueue_def attemptCheck_def attemptTermination_def
      split: if_splits list.splits\<close>)

lemma inv_signal_step:
  assumes "inv_count s" "inv_term s" "inv_signal s" "step a s = Some s'"
  shows "inv_signal s'"
proof (cases "terminated (pool s') = terminated (pool s)")
  case True
  from flag_kept_step[OF assms(1,4) True] show ?thesis
  proof
    assume same: "terminationChannel (pool s') = terminationChannel (pool s)"
    show ?thesis
    proof (cases "wait_pc s' = Returned \<longleftrightarrow> wait_pc s = Returned")
      case True
      with assms(3) same \<open>terminated (pool s') = terminated (pool s)\<close> show ?thesis
        by (simp add: inv_signal_def)
    next
      case False
      with returned_step[OF assms(4)] have r: "wait_pc s' = Returned" "wait_pc s \<noteq> Returned"
        by auto
      then have "a = Recv_term"
        using assms(4) by (cases a) (auto split: if_splits list.splits option.splits prod.splits)
      with assms(3,4) r show ?thesis
        by (auto simp: inv_signal_def split: if_splits list.splits)
    qed
  next
    assume "a = Recv_term \<and> wait_pc s' = Returned \<and>
      terminationChannel (pool s) = hd (terminationChannel (pool s)) # terminationChannel (pool s')"
    with assms(3) show ?thesis by (auto simp: inv_signal_def split: if_splits)
  qed
next
  case False
  from terminated_step[OF _ assms(4)] False
  have f: "\<not> terminated (pool s)" "terminated (pool s')" by auto
  from flag_set_step[OF assms(1,2,4) f]
  have a: "a = Wait_terminate" "wait_pc s' = Selecting" by simp_all
  from assms(3) f(1) have "terminationChannel (pool s) = []" by (simp add: inv_signal_def)
  with assms(4) a f show ?thesis
    by (auto simp: inv_signal_def attemptTermination_def try_send_def chan_full_def chan_cap_def
        split: if_splits)
qed

lemma inv_signal_start: "New n = Inr p \<Longrightarrow> inv_signal (start p)"
  by (auto dest!: New_Inr simp: inv_signal_def start_def)

lemma inv_signal_run:
  "run as s = Some s' \<Longrightarrow> inv_count s \<Longrightarrow> inv_term s \<Longrightarrow> inv_signal s \<Longrightarrow> inv_signal s'"
proof (induction as arbitrary: s)
  case Nil
  then show ?case by simp
next
  case (Cons a as)
  then obtain s1 where s1: "step a s = Some s1" "run as s1 = Some s'"
    by (auto split: option.splits)
  with Cons.prems have "inv_count s1" "inv_term s1" "inv_signal s1"
    by (auto intro: inv_count_step inv_term_step inv_signal_step)
  with Cons.IH[OF s1(2)] show ?case by simp
qed

text \<open>A value is put on the channel by the step that sets the flag, and by no other.\<close>

lemma signal_growth:
  assumes "inv_count s" "inv_term s" "inv_signal s" "step a s = Some s'"
  shows "length (terminationChannel (pool s')) - length (terminationChannel (pool s)) =
         (if \<not> terminated (pool s) \<and> terminated (pool s') then 1 else 0)"
proof (cases "\<not> terminated (pool s) \<and> terminated (pool s')")
  case True
  from flag_set_step[OF assms(1,2,4)] True have "wait_pc s' = Selecting" by simp
  moreover have "inv_signal s'" using assms by (rule inv_signal_step)
  ultimately have "terminationChannel (pool s') = [True]"
    using True by (simp add: inv_signal_def)
  moreover from assms(3) True have "terminationChannel (pool s) = []"
    by (simp add: inv_signal_def)
  ultimately show ?thesis using True by simp
next
  case False
  with terminated_step[OF _ assms(4)] have "terminated (pool s') = terminated (pool s)"
    by auto
  from flag_kept_step[OF assms(1,4) this]
  have "length (terminationChannel (pool s')) \<le> length (terminationChannel (pool s))"
    by (auto, metis length_Cons le_SucI order_refl)
  with False show ?thesis by simp
qed

lemma term_signals_run:
  "run as s = Some s' \<Longrightarrow> inv_count s \<Longrightarrow> inv_term s \<Longrightarrow> inv_signal s \<Longrightarrow>
   term_signals as s + (if terminated (pool s) then 1 else 0) =
     (if terminated (pool s') then 1 else 0)"
proof (induction as arbitrary: s)
  case Nil
  then show ?case by simp
next
  case (Cons a as)
  then obtain s1 where s1: "step a s = Some s1" "run as s1 = Some s'"
    by (auto split: option.splits)
  with Cons.prems have i: "inv_count s1" "inv_term s1" "inv_signal s1"
    by (auto intro: inv_count_step inv_term_step inv_signal_step)
  from terminated_step[OF _ s1(1)] have m: "terminated (pool s) \<longrightarrow> terminated (pool s1)"
    by blast
  from signal_growth[OF Cons.prems(2,3,4) s1(1)] Cons.IH[OF s1(2) i] m s1(1)
  show ?case by (auto split: if_splits)
qed

lemma run_snoc: "run as s = Some s1 \<Longrightarrow> step a s1 = Some s' \<Longrightarrow> run (as @ [a]) s = Some s'"
  by (induction as arbitrary: s) (auto split: option.splits)

text \<open>
  Claim C7 says that the flag is set only in a state where the queue is empty.
  \<^verbatim>\<open>checkQueue\<close> unlocks the mutex (line 91) before \<^verbatim>\<open>attemptTermination\<close> locks it again
  (line 53), and a \<^verbatim>\<open>Run\<close> on another goroutine can append a task in between: here the
  flag goes from false to true in a state whose queue holds a task.
\<close>

theorem terminated_set_with_pending:
  "exec 1 [Wait_call, Wait_checkQueue, Run_push (Task 1 None)] =
     Some \<lparr>pool = \<lparr>maxCount = 1, queue = [Task 1 None], running = 0, results = [],
                    terminated = False, terminationChannel = [], runCheckChannel = []\<rparr>,
            workers = [], callers = 1, wait_pc = Terminating, wait_results = [],
            submitted = [Task 1 None], term_sends = 0\<rparr> \<and>
   exec 1 [Wait_call, Wait_checkQueue, Run_push (Task 1 None), Wait_terminate] =
     Some \<lparr>pool = \<lparr>maxCount = 1, queue = [Task 1 None], running = 0, results = [],
                    terminated = True, terminationChannel = [True], runCheckChannel = []\<rparr>,
            workers = [], callers = 1, wait_pc = Selecting, wait_results = [],
            submitted = [Task 1 None], term_sends = 1\<rparr>"
  by (simp add: eval_defs)

text \<open>
  Claim C7 as the code has it. For every step from a reachable state: the flag is never
  reset; it goes from false to true only in \<^verbatim>\<open>attemptTermination\<close> called by \<^verbatim>\<open>checkQueue\<close>
  (line 92), in a state where \<open>running = 0\<close>, and that step puts one value on the empty
  \<^verbatim>\<open>terminationChannel\<close>; \<^verbatim>\<open>checkQueue\<close> gets to line 92 only when it has seen, under the
  mutex, an empty queue and \<open>running = 0\<close> on a pool that is not terminated; a step that
  leaves the flag as it is puts nothing on \<^verbatim>\<open>terminationChannel\<close>; and over the whole
  execution the number of values put on \<^verbatim>\<open>terminationChannel\<close> is 1 when the flag is set
  and 0 otherwise, so the terminal signal is fired at most once.
\<close>

theorem terminated_one_shot:
  assumes "exec n as = Some s" "step a s = Some s'"
  shows "(terminated (pool s) \<longrightarrow> terminated (pool s')) \<and>
         (\<not> terminated (pool s) \<and> terminated (pool s') \<longrightarrow>
            a = Wait_terminate \<and> wait_pc s = Terminating \<and> running (pool s) = 0 \<and>
            terminationChannel (pool s) = [] \<and> terminationChannel (pool s') = [True]) \<and>
         (wait_pc s \<noteq> Terminating \<and> wait_pc s' = Terminating \<longrightarrow>
            a = Wait_checkQueue \<and> \<not> terminated (pool s) \<and>
            queue (pool s) = [] \<and> running (pool s) = 0) \<and>
         (terminated (pool s') = terminated (pool s) \<longrightarrow>
            length (terminationChannel (pool s')) \<le> length (terminationChannel (pool s))) \<and>
         exec_signals n (as @ [a]) = (if terminated (pool s') then 1 else 0) \<and>
         exec_signals n (as @ [a]) \<le> 1"
proof -
  from assms(1) obtain p where p: "New n = Inr p" "run as (start p) = Some s"
    by (rule execE)
  have c0: "inv_count (start p)" "inv_term (start p)" "inv_signal (start p)"
    using p(1) by (simp_all add: inv_count_start inv_term_start inv_signal_start)
  have c: "inv_count s"
    using inv_count_run[OF p(2) c0(1)] by simp
  have t: "inv_term s"
    using p(2) c0(1,2) by (rule inv_term_run)
  have g: "inv_signal s"
    using p(2) c0 by (rule inv_signal_run)
  have g': "inv_signal s'"
    using c t g assms(2) by (rule inv_signal_step)
  have mono: "terminated (pool s) \<longrightarrow> terminated (pool s')"
    using terminated_step[OF _ assms(2)] by blast
  have set: "a = Wait_terminate \<and> wait_pc s = Terminating \<and> running (pool s) = 0 \<and>
      terminationChannel (pool s) = [] \<and> terminationChannel (pool s') = [True]"
    if f: "\<not> terminated (pool s)" "terminated (pool s')"
  proof -
    from flag_set_step[OF c t assms(2) f]
    have a: "a = Wait_terminate" "wait_pc s = Terminating" "running (pool s) = 0"
      "wait_pc s' = Selecting" by simp_all
    from g f(1) have "terminationChannel (pool s) = []" by (simp add: inv_signal_def)
    moreover from g' f(2) a(4) have "terminationChannel (pool s') = [True]"
      by (simp add: inv_signal_def)
    ultimately show ?thesis using a by simp
  qed
  have gap: "a = Wait_checkQueue \<and> \<not> terminated (pool s) \<and>
      queue (pool s) = [] \<and> running (pool s) = 0"
    if "wait_pc s \<noteq> Terminating" "wait_pc s' = Terminating"
  proof (cases a)
    case Wait_checkQueue
    with assms(2) have "step Wait_checkQueue s = Some s'" by simp
    with c show ?thesis using that Wait_checkQueue
      by (cases rule: step_checkQueueE) (auto split: if_splits)
  next
    case (Worker i)
    with assms(2) have "step (Worker i) s = Some s'" by simp
    then show ?thesis using that by (cases rule: step_WorkerE) auto
  qed (use assms(2) that in \<open>auto split: if_splits list.splits\<close>)
  have kept: "length (terminationChannel (pool s')) \<le> length (terminationChannel (pool s))"
    if "terminated (pool s') = terminated (pool s)"
    using signal_growth[OF c t g assms(2)] that by (simp split: if_splits)
  have "run (as @ [a]) (start p) = Some s'"
    using p(2) assms(2) by (rule run_snoc)
  from term_signals_run[OF this c0] p(1)
  have count: "exec_signals n (as @ [a]) = (if terminated (pool s') then 1 else 0)"
    by (auto dest!: New_Inr simp: exec_signals_def start_def split: if_splits)
  then have "exec_signals n (as @ [a]) \<le> 1" by simp
  with mono set gap kept count show ?thesis by blast
qed

theorem terminated_one_shot_witness:
  "(\<exists>s s'. exec 1 [Run_push (Task 1 None), Run_signal, Wait_call, Wait_checkQueue,
               Worker 0, Worker 0, Recv_result, Worker 0, Worker 0, Recv_check] = Some s \<and>
      step Wait_checkQueue s = Some s' \<and>
      wait_pc s \<noteq> Terminating \<and> wait_pc s' = Terminating \<and>
      \<not> terminated (pool s) \<and> queue (pool s) = [] \<and> running (pool s) = 0 \<and>
      terminated (pool s') = terminated (pool s) \<and>
      length (terminationChannel (pool s')) \<le> length (terminationChannel (pool s))) \<and>
   (\<exists>s s'. exec 1 [Run_push (Task 1 None), Run_signal, Wait_call, Wait_checkQueue,
               Worker 0, Worker 0, Recv_result, Worker 0, Worker 0, Recv_check,
               Wait_checkQueue] = Some s \<and>
      step Wait_terminate s = Some s' \<and>
      \<not> terminated (pool s) \<and> terminated (pool s') \<and> wait_pc s = Terminating \<and>
      running (pool s) = 0 \<and>
      terminationChannel (pool s) = [] \<and> terminationChannel (pool s') = [True]) \<and>
   (\<exists>s s'. exec 1 [Run_push (Task 1 None), Run_signal, Wait_call, Wait_checkQueue,
               Worker 0, Worker 0, Recv_result, Worker 0, Worker 0, Recv_check,
               Wait_checkQueue, Wait_terminate] = Some s \<and>
      step Recv_term s = Some s' \<and>
      terminated (pool s) \<and> terminated (pool s') \<and>
      wait_results s' = [\<lparr>Success = True, Err = None\<rparr>]) \<and>
   exec_signals 1 [Run_push (Task 1 None), Run_signal, Wait_call, Wait_checkQueue,
               Worker 0, Worker 0, Recv_result, Worker 0, Worker 0, Recv_check,
               Wait_checkQueue, Wait_terminate, Recv_term] = 1"
proof -
  let ?A = "[Run_push (Task 1 None), Run_signal, Wait_call, Wait_checkQueue,
               Worker 0, Worker 0, Recv_result, Worker 0, Worker 0, Recv_check]"
  let ?P = "\<lambda>t c. \<lparr>maxCount = 1, queue = [], running = 0, results = [],
      terminated = t, terminationChannel = c, runCheckChannel = []\<rparr>"
  let ?S = "\<lambda>q pc k. \<lparr>pool = q, workers = [(Task 1 None, Done)], callers = 0, wait_pc = pc,
      wait_results = [\<lparr>Success = True, Err = None\<rparr>], submitted = [Task 1 None],
      term_sends = k\<rparr>"
  let ?s0 = "?S (?P False []) Checking 0"
  let ?s1 = "?S (?P False []) Terminating 0"
  let ?s2 = "?S (?P True [True]) Selecting 1"
  let ?s3 = "?S (?P True []) Returned 1"
  have e0: "exec 1 ?A = Some ?s0"
    by (simp add: eval_defs)
  have t0: "step Wait_checkQueue ?s0 = Some ?s1"
    and t1: "step Wait_terminate ?s1 = Some ?s2"
    and t2: "step Recv_term ?s2 = Some ?s3"
    by (simp_all add: eval_defs)
  have e1: "exec 1 (?A @ [Wait_checkQueue]) = Some ?s1"
    by (simp add: eval_defs)
  have e2: "exec 1 (?A @ [Wait_checkQueue, Wait_terminate]) = Some ?s2"
    by (simp add: eval_defs)
  from terminated_one_shot[OF e0 t0]
  have a: "\<not> terminated (pool ?s0) \<and> queue (pool ?s0) = [] \<and> running (pool ?s0) = 0 \<and>
      length (terminationChannel (pool ?s1)) \<le> length (terminationChannel (pool ?s0))"
    by simp
  from terminated_one_shot[OF e1 t1]
  have b: "running (pool ?s1) = 0 \<and> terminationChannel (pool ?s1) = [] \<and>
      terminationChannel (pool ?s2) = [True]" by simp
  from terminated_one_shot[OF e2 t2]
  have c: "terminated (pool ?s3) \<and>
      exec_signals 1 ((?A @ [Wait_checkQueue, Wait_terminate]) @ [Recv_term]) = 1" by simp
  have "\<exists>s s'. exec 1 ?A = Some s \<and> step Wait_checkQueue s = Some s' \<and>
      wait_pc s \<noteq> Terminating \<and> wait_pc s' = Terminating \<and>
      \<not> terminated (pool s) \<and> queue (pool s) = [] \<and> running (pool s) = 0 \<and>
      terminated (pool s') = terminated (pool s) \<and>
      length (terminationChannel (pool s')) \<le> length (terminationChannel (pool s))"
    using e0 t0 a by (intro exI[of _ ?s0] exI[of _ ?s1]) simp
  moreover have "\<exists>s s'. exec 1 (?A @ [Wait_checkQueue]) = Some s \<and>
      step Wait_terminate s = Some s' \<and>
      \<not> terminated (pool s) \<and> terminated (pool s') \<and> wait_pc s = Terminating \<and>
      running (pool s) = 0 \<and>
      terminationChannel (pool s) = [] \<and> terminationChannel (pool s') = [True]"
    using e1 t1 b by (intro exI[of _ ?s1] exI[of _ ?s2]) simp
  moreover have "\<exists>s s'. exec 1 (?A @ [Wait_checkQueue, Wait_terminate]) = Some s \<and>
      step Recv_term s = Some s' \<and>
      terminated (pool s) \<and> terminated (pool s') \<and>
      wait_results s' = [\<lparr>Success = True, Err = None\<rparr>]"
    using e2 t2 c by (intro exI[of _ ?s2] exI[of _ ?s3]) simp
  ultimately show ?thesis using c by simp
qed

text \<open>
  Claim C1 says that \<^verbatim>\<open>Wait\<close> returns one outcome for each of the \<open>K\<close> tasks submitted
  before it. With limit 1 and one task: the goroutine of the task puts its outcome in the
  buffer of \<^verbatim>\<open>results\<close>, decrements \<^verbatim>\<open>running\<close>, and \<^verbatim>\<open>Wait\<close>, whose \<^verbatim>\<open>select\<close> may take
  any ready case, takes \<^verbatim>\<open>runCheckChannel\<close> first; \<^verbatim>\<open>checkQueue\<close> finds the queue empty and
  nothing running and sends on \<^verbatim>\<open>terminationChannel\<close>; the \<^verbatim>\<open>select\<close> then takes
  \<^verbatim>\<open>terminationChannel\<close>, and \<^verbatim>\<open>Wait\<close> returns the empty slice while the outcome is still
  in the buffer.
\<close>

theorem wait_drops_buffered_outcome:
  "exec 1 [Run_push (Task 1 None), Run_signal, Wait_call, Wait_checkQueue,
           Worker 0, Worker 0, Worker 0, Worker 0,
           Recv_check, Wait_checkQueue, Wait_terminate, Recv_term] =
     Some \<lparr>pool = \<lparr>maxCount = 1, queue = [], running = 0,
                    results = [\<lparr>Success = True, Err = None\<rparr>], terminated = True,
                    terminationChannel = [], runCheckChannel = []\<rparr>,
            workers = [(Task 1 None, Done)], callers = 0, wait_pc = Returned,
            wait_results = [], submitted = [Task 1 None], term_sends = 1\<rparr>"
  by (simp add: eval_defs)

lemma only_next:
  assumes "\<And>a s'. internal a \<Longrightarrow> step a s = Some s' \<Longrightarrow> a = b \<and> s' = t"
    and "run as s = Some s'" "\<forall>a \<in> set as. internal a"
  shows "as = [] \<or> (\<exists>as'. as = b # as' \<and> run as' t = Some s' \<and> (\<forall>a \<in> set as'. internal a))"
proof (cases as)
  case Nil
  then show ?thesis by simp
next
  case (Cons a as')
  with assms(2) obtain s1 where s1: "step a s = Some s1" "run as' s1 = Some s'"
    by (auto split: option.splits)
  from assms(3) Cons have "internal a" by simp
  from assms(1)[OF this s1(1)] s1(2) assms(3) Cons show ?thesis by simp
qed

text \<open>
  Claim C8: on a fresh pool with no task submitted, \<^verbatim>\<open>Wait\<close> returns the empty slice: the
  four actions of \<^verbatim>\<open>Wait\<close> (the call, \<^verbatim>\<open>checkQueue\<close>, \<^verbatim>\<open>attemptTermination\<close>, the receive
  on \<^verbatim>\<open>terminationChannel\<close>) are enabled one after the other and end in a state where
  \<^verbatim>\<open>Wait\<close> has returned \<open>[]\<close>; and as long as no \<^verbatim>\<open>Run\<close> is called nothing else can
  happen, every schedule is a prefix of these four actions, so \<^verbatim>\<open>Wait\<close> never blocks.
\<close>

theorem wait_without_tasks:
  assumes "New n = Inr p"
  shows "(\<exists>s. run [Wait_call, Wait_checkQueue, Wait_terminate, Recv_term] (start p) = Some s \<and>
              wait_pc s = Returned \<and> wait_results s = []) \<and>
         (\<forall>as s. run as (start p) = Some s \<and> (\<forall>a \<in> set as. internal a) \<longrightarrow>
              (\<exists>k. as = take k [Wait_call, Wait_checkQueue, Wait_terminate, Recv_term]))"
proof -
  define m where "m = (if 0 < sint n then sint n else 1)"
  have m: "1 \<le> m" "m < 2 ^ 63"
    using sint_lt[of n] by (auto simp: m_def)
  let ?p = "\<lparr>maxCount = m, queue = [], running = 0, results = [], terminated = False,
             terminationChannel = [], runCheckChannel = []\<rparr>"
  let ?S = "\<lambda>q pc k. \<lparr>pool = q, workers = [], callers = 0, wait_pc = pc,
             wait_results = [], submitted = [], term_sends = k\<rparr>"
  have p: "p = ?p"
    using New_Inr[OF assms] by (simp add: m_def)
  have cq: "checkQueue ?p = (?p, [], True)"
    using m by (subst checkQueue_closed) simp_all
  have s0: "start p = ?S ?p NotCalled 0" by (simp add: start_def p)
  have n0: "a = Wait_call \<and> s' = ?S ?p Checking 0"
    if "internal a" "step a (?S ?p NotCalled 0) = Some s'" for a s'
    using that by (cases a) (auto split: if_splits)
  have n1: "a = Wait_checkQueue \<and> s' = ?S ?p Terminating 0"
    if "internal a" "step a (?S ?p Checking 0) = Some s'" for a s'
    using that by (cases a) (auto simp: cq split: if_splits)
  have n2: "a = Wait_terminate \<and> s' = ?S (?p\<lparr>terminated := True, terminationChannel := [True]\<rparr>) Selecting 1"
    if "internal a" "step a (?S ?p Terminating 0) = Some s'" for a s'
    using that by (cases a)
      (auto simp: attemptTermination_def try_send_def chan_full_def chan_cap_def split: if_splits)
  have n3: "a = Recv_term \<and> s' = ?S (?p\<lparr>terminated := True\<rparr>) Returned 1"
    if "internal a" "step a (?S (?p\<lparr>terminated := True, terminationChannel := [True]\<rparr>) Selecting 1) = Some s'" for a s'
    using that by (cases a) (auto split: if_splits)
  have n4: "False"
    if "internal a" "step a (?S (?p\<lparr>terminated := True\<rparr>) Returned 1) = Some s'" for a s'
    using that by (cases a) (auto split: if_splits)
  have full: "run [Wait_call, Wait_checkQueue, Wait_terminate, Recv_term] (start p) =
      Some (?S (?p\<lparr>terminated := True\<rparr>) Returned 1)"
    unfolding s0
    by (simp add: cq attemptTermination_def try_send_def chan_full_def chan_cap_def)
  have uniq: "\<exists>k. as = take k [Wait_call, Wait_checkQueue, Wait_terminate, Recv_term]"
    if r: "run as (start p) = Some s" and i: "\<forall>a \<in> set as. internal a" for as s
  proof -
    let ?full = "[Wait_call, Wait_checkQueue, Wait_terminate, Recv_term]"
    from only_next[OF n0 r[unfolded s0] i] consider "as = []"
      | as1 where "as = Wait_call # as1" "run as1 (?S ?p Checking 0) = Some s"
          "\<forall>a \<in> set as1. internal a" by blast
    then show ?thesis
    proof cases
      case 1
      then have "as = take 0 ?full" by simp
      then show ?thesis ..
    next
      case (2 as1)
      from only_next[OF n1 2(2,3)] consider "as1 = []"
        | as2 where "as1 = Wait_checkQueue # as2" "run as2 (?S ?p Terminating 0) = Some s"
            "\<forall>a \<in> set as2. internal a" by blast
      then show ?thesis
      proof cases
        case 1
        with 2(1) have "as = take 1 ?full" by simp
        then show ?thesis ..
      next
        case (2 as2)
        note b = \<open>as = Wait_call # as1\<close> 2(1)
        from only_next[OF n2 2(2,3)] consider "as2 = []"
          | as3 where "as2 = Wait_terminate # as3"
              "run as3 (?S (?p\<lparr>terminated := True, terminationChannel := [True]\<rparr>) Selecting 1) = Some s"
              "\<forall>a \<in> set as3. internal a" by blast
        then show ?thesis
        proof cases
          case 1
          with b have "as = take 2 ?full" by simp
          then show ?thesis ..
        next
          case (2 as3)
          from only_next[OF n3 2(2,3)] consider "as3 = []"
            | as4 where "as3 = Recv_term # as4"
                "run as4 (?S (?p\<lparr>terminated := True\<rparr>) Returned 1) = Some s"
                "\<forall>a \<in> set as4. internal a" by blast
          then show ?thesis
          proof cases
            case 1
            with b 2(1) have "as = take 3 ?full" by simp
            then show ?thesis ..
          next
            case (2 as4)
            have "as4 = []"
            proof (cases as4)
              case (Cons a as5)
              with 2(2,3) n4[of a] show ?thesis by (auto split: option.splits)
            qed simp
            with b \<open>as2 = Wait_terminate # as3\<close> 2(1) have "as = take 4 ?full" by simp
            then show ?thesis ..
          qed
        qed
      qed
    qed
  qed
  from full uniq show ?thesis by auto
qed

theorem wait_without_tasks_witness:
  "New 3 = Inr \<lparr>maxCount = 3, queue = [], running = 0, results = [], terminated = False,
             terminationChannel = [], runCheckChannel = []\<rparr> \<and>
   (\<exists>s. run [Wait_call, Wait_checkQueue, Wait_terminate, Recv_term]
          (start \<lparr>maxCount = 3, queue = [], running = 0, results = [], terminated = False,
             terminationChannel = [], runCheckChannel = []\<rparr>) = Some s \<and>
        wait_pc s = Returned \<and> wait_results s = []) \<and>
   run [Wait_call, Wait_checkQueue]
          (start \<lparr>maxCount = 3, queue = [], running = 0, results = [], terminated = False,
             terminationChannel = [], runCheckChannel = []\<rparr>) \<noteq> None \<and>
   (\<exists>k. [Wait_call, Wait_checkQueue] =
        take k [Wait_call, Wait_checkQueue, Wait_terminate, Recv_term])"
proof -
  let ?p = "\<lparr>maxCount = 3, queue = [], running = 0, results = [], terminated = False,
             terminationChannel = [], runCheckChannel = []\<rparr>"
  have n: "New 3 = Inr ?p"
    by (simp add: New_def maxAlloc_def)
  obtain s where r: "run [Wait_call, Wait_checkQueue] (start ?p) = Some s"
    by (simp add: eval_defs)
  have i: "\<forall>a \<in> set [Wait_call, Wait_checkQueue]. internal a" by simp
  from wait_without_tasks[OF n] r i
  have "(\<exists>s. run [Wait_call, Wait_checkQueue, Wait_terminate, Recv_term] (start ?p) = Some s \<and>
        wait_pc s = Returned \<and> wait_results s = [])"
    and "\<exists>k. [Wait_call, Wait_checkQueue] =
        take k [Wait_call, Wait_checkQueue, Wait_terminate, Recv_term]"
    by blast+
  with n r show ?thesis by simp
qed

subsection \<open>Wait returns\<close>

lemma slots_pos_not_Done: "0 < slots ws \<Longrightarrow> \<exists>w \<in> set ws. snd w \<noteq> Done"
proof -
  assume "0 < slots ws"
  then obtain w where w: "w \<in> set ws" "holds_slot w"
    unfolding slots_def by (auto simp: filter_empty_conv)
  then have "snd w \<noteq> Done" by (cases w rule: holds_slot.cases) auto
  with w show ?thesis by blast
qed

lemma try_send_nonempty: "try_send v c \<noteq> []"
  by (cases c) (auto simp: try_send_def chan_full_def chan_cap_def)

lemma not_Done_update:
  "i < length ws \<Longrightarrow> snd w \<noteq> Done \<Longrightarrow> \<exists>x \<in> set (ws[i := w]). snd x \<noteq> Done"
  by (metis set_update_memI)

lemma inv_progress_step:
  assumes "inv_count s" "inv_progress s" "step a s = Some s'"
  shows "inv_progress s'"
proof (cases a)
  case (Run_push t)
  with assms show ?thesis by (auto simp: inv_progress_def pushToQueue_def)
next
  case Run_signal
  with assms show ?thesis
    by (auto simp: inv_progress_def attemptCheck_def try_send_nonempty split: if_splits)
next
  case Wait_call
  with assms show ?thesis by (auto simp: inv_progress_def split: if_splits)
next
  case Wait_checkQueue
  with assms(3) have "step Wait_checkQueue s = Some s'" by simp
  with assms(1) show ?thesis
  proof (cases rule: step_checkQueueE)
    case idle
    show ?thesis
    proof (cases "terminated (pool s)")
      case True
      with idle show ?thesis by (simp add: inv_progress_def)
    next
      case False
      with idle assms(1) have "0 < slots (workers s)" by (auto simp: inv_count_def)
      from slots_pos_not_Done[OF this] idle show ?thesis by (simp add: inv_progress_def)
    qed
  next
    case (launch k)
    have ws: "workers s' = workers s @ map (\<lambda>t. (t, Body)) (take k (queue (pool s)))"
      and pc: "wait_pc s' = (if queue (pool s) = [] \<and> running (pool s) = 0
                           then Terminating else Selecting)"
      using launch(5) by simp_all
    have "\<exists>w \<in> set (workers s'). snd w \<noteq> Done" if sel: "wait_pc s' = Selecting"
    proof (cases "queue (pool s)")
      case Nil
      with sel pc have "running (pool s) \<noteq> 0" by (auto split: if_splits)
      with assms(1) have "0 < slots (workers s)" by (auto simp: inv_count_def)
      from slots_pos_not_Done[OF this] show ?thesis unfolding ws by auto
    next
      case (Cons t ts)
      with launch(3,4) have "0 < k" by simp
      then obtain k' where "k = Suc k'" by (cases k) auto
      with Cons show ?thesis unfolding ws by auto
    qed
    then show ?thesis by (auto simp: inv_progress_def)
  qed
next
  case Wait_terminate
  with assms show ?thesis
    by (auto simp: inv_progress_def attemptTermination_def split: if_splits)
next
  case Recv_check
  with assms show ?thesis by (auto simp: inv_progress_def split: if_splits list.splits)
next
  case Recv_result
  with assms show ?thesis by (auto simp: inv_progress_def split: if_splits list.splits)
next
  case Recv_term
  with assms show ?thesis by (auto simp: inv_progress_def split: if_splits list.splits)
next
  case (Worker i)
  with assms(3) have st: "step (Worker i) s = Some s'" by simp
  from st show ?thesis
  proof (cases rule: step_WorkerE)
    case (1 t)
    have "\<exists>w \<in> set (workers s'). snd w \<noteq> Done"
      unfolding 1(3) using 1(1) by (simp add: not_Done_update)
    then show ?thesis by (simp add: inv_progress_def)
  next
    case (2 t err)
    have "\<exists>w \<in> set (workers s'). snd w \<noteq> Done"
      unfolding 2(4) using 2(1) by (simp add: not_Done_update)
    then show ?thesis by (simp add: inv_progress_def)
  next
    case (3 t)
    have "\<exists>w \<in> set (workers s'). snd w \<noteq> Done"
      unfolding 3(3) using 3(1) by (simp add: not_Done_update)
    then show ?thesis by (simp add: inv_progress_def)
  next
    case (4 t)
    then show ?thesis by (simp add: inv_progress_def attemptCheck_def try_send_nonempty)
  qed
qed

lemma inv_progress_start: "inv_progress (start p)"
  by (simp add: inv_progress_def start_def)

lemma length_try_send: "length (try_send v c) \<le> Suc (length c)"
  by (simp add: try_send_def)

lemma weight_Body: "sum_list (map (phase_weight \<circ> (\<lambda>t. (t, Body))) ts) = 9 * length ts"
  by (induction ts) simp_all

lemma work_left_step:
  assumes "inv_count s" "internal a" "step a s = Some s'"
  shows "work_left s' < work_left s"
proof (cases a)
  case (Run_push t)
  with assms(2) show ?thesis by simp
next
  case Run_signal
  with assms(3) have c: "0 < callers s"
    and s': "s' = s\<lparr>pool := attemptCheck (pool s), callers := callers s - 1\<rparr>"
    by (auto split: if_splits)
  from length_try_send[of True "runCheckChannel (pool s)"] c show ?thesis
    unfolding s' work_left_def attemptCheck_def by simp
next
  case Wait_call
  with assms(3) show ?thesis by (auto simp: work_left_def split: if_splits)
next
  case Wait_checkQueue
  with assms(3) have "step Wait_checkQueue s = Some s'" by simp
  with assms(1) show ?thesis
  proof (cases rule: step_checkQueueE)
    case idle
    then show ?thesis by (simp add: work_left_def)
  next
    case (launch k)
    from launch(4) have k: "k \<le> length (queue (pool s))" by simp
    then have "length (take k (queue (pool s))) = k" by simp
    moreover from k have "9 * (length (queue (pool s)) - k) + 9 * k = 9 * length (queue (pool s))"
      by simp
    ultimately show ?thesis
      using k launch(1) unfolding launch(5) work_left_def by (auto simp: weight_Body)
  qed
next
  case Wait_terminate
  with assms(3) show ?thesis
    by (auto simp: work_left_def attemptTermination_def split: if_splits)
next
  case Recv_check
  with assms(3) show ?thesis by (auto simp: work_left_def split: if_splits list.splits)
next
  case Recv_result
  with assms(3) show ?thesis by (auto simp: work_left_def split: if_splits list.splits)
next
  case Recv_term
  with assms(3) show ?thesis by (auto simp: work_left_def split: if_splits list.splits)
next
  case (Worker i)
  with assms(3) have st: "step (Worker i) s = Some s'" by simp
  from st show ?thesis
  proof (cases rule: step_WorkerE)
    case (1 t)
    from weight_update[OF 1(1), of "(t, Send (task_body t))"] 1(2) show ?thesis
      unfolding 1(3) work_left_def by simp
  next
    case (2 t err)
    from weight_update[OF 2(1), of "(t, Dec)"] 2(2,3) show ?thesis
      unfolding 2(4) work_left_def by simp
  next
    case (3 t)
    from weight_update[OF 3(1), of "(t, Signal)"] 3(2) show ?thesis
      unfolding 3(3) work_left_def by simp
  next
    case (4 t)
    from weight_update[OF 4(1), of "(t, Done)"] 4(2)
      length_try_send[of True "runCheckChannel (pool s)"] show ?thesis
      unfolding 4(3) work_left_def attemptCheck_def by simp
  qed
qed

lemma wait_pc_step:
  "step a s = Some s' \<Longrightarrow> wait_pc s \<noteq> NotCalled \<Longrightarrow> wait_pc s' \<noteq> NotCalled"
  by (cases a) (auto split: if_splits list.splits option.splits prod.splits)

lemma no_deadlock:
  assumes "inv_count s" "inv_term s" "inv_progress s"
    and "wait_pc s \<noteq> NotCalled" "wait_pc s \<noteq> Returned"
  shows "\<exists>a. internal a \<and> step a s \<noteq> None"
proof (cases "wait_pc s")
  case Checking
  then have "step Wait_checkQueue s \<noteq> None" by (simp split: prod.splits)
  then show ?thesis by (intro exI[of _ Wait_checkQueue]) simp
next
  case Terminating
  then have "step Wait_terminate s \<noteq> None" by simp
  then show ?thesis by (intro exI[of _ Wait_terminate]) simp
next
  case Selecting
  show ?thesis
  proof (cases "terminated (pool s)")
    case True
    with assms(2) Selecting have "terminationChannel (pool s) \<noteq> []"
      by (simp add: inv_term_def)
    with Selecting have "step Recv_term s \<noteq> None" by (simp split: list.splits)
    then show ?thesis by (intro exI[of _ Recv_term]) simp
  next
    case False
    with assms(3) Selecting consider "runCheckChannel (pool s) \<noteq> []" | "0 < callers s"
      | w where "w \<in> set (workers s)" "snd w \<noteq> Done"
      by (auto simp: inv_progress_def)
    then show ?thesis
    proof cases
      case 1
      with Selecting have "step Recv_check s \<noteq> None" by (simp split: list.splits)
      then show ?thesis by (intro exI[of _ Recv_check]) simp
    next
      case 2
      then have "step Run_signal s \<noteq> None" by simp
      then show ?thesis by (intro exI[of _ Run_signal]) simp
    next
      case (3 w)
      then obtain i where i: "i < length (workers s)" "workers s ! i = w"
        by (auto simp: in_set_conv_nth)
      obtain t ph where w: "w = (t, ph)" by (cases w)
      show ?thesis
      proof (cases "\<exists>err. ph = Send err \<and> results (pool s) \<noteq> []")
        case True
        with Selecting have "step Recv_result s \<noteq> None" by (auto split: list.splits)
        then show ?thesis by (intro exI[of _ Recv_result]) simp
      next
        case False
        with 3(2) i w have "step (Worker i) s \<noteq> None"
          by (cases ph) (auto simp: chan_full_def chan_cap_def)
        then show ?thesis by (intro exI[of _ "Worker i"]) simp
      qed
    qed
  qed
qed (use assms in simp_all)

lemma must_return_inv:
  assumes "inv_count s" "inv_term s" "inv_progress s" "wait_pc s \<noteq> NotCalled"
  shows "must_return s"
  using assms
proof (induction "work_left s" arbitrary: s rule: less_induct)
  case less
  show ?case
  proof (cases "wait_pc s = Returned")
    case True
    then show ?thesis by (rule must_return.returned)
  next
    case False
    then show ?thesis
    proof (rule must_return.progress)
      show "\<exists>a. internal a \<and> step a s \<noteq> None"
        using less.prems False by (intro no_deadlock)
    next
      fix a s'
      assume a: "internal a" "step a s = Some s'"
      show "must_return s'"
      proof (rule less.hyps)
        show "work_left s' < work_left s"
          using less.prems(1) a by (rule work_left_step)
        show "inv_count s'" using less.prems(1) a(2) by (rule inv_count_step)
        show "inv_term s'" using less.prems(1,2) a(2) by (rule inv_term_step)
        show "inv_progress s'" using less.prems(1,3) a(2) by (rule inv_progress_step)
        show "wait_pc s' \<noteq> NotCalled" using a(2) less.prems(4) by (rule wait_pc_step)
      qed
    qed
  qed
qed

lemma inv_progress_run:
  "run as s = Some s' \<Longrightarrow> inv_count s \<Longrightarrow> inv_progress s \<Longrightarrow> inv_progress s'"
proof (induction as arbitrary: s)
  case Nil
  then show ?case by simp
next
  case (Cons a as)
  then obtain s1 where s1: "step a s = Some s1" "run as s1 = Some s'"
    by (auto split: option.splits)
  with Cons.prems have "inv_count s1" "inv_progress s1"
    by (auto intro: inv_count_step inv_progress_step)
  with Cons.IH[OF s1(2)] show ?case by simp
qed

text \<open>
  Claim C4 (termination): for every limit and every finite number of calls of \<^verbatim>\<open>Run\<close>,
  once \<^verbatim>\<open>Wait\<close> has been called it returns. From every state the program reaches after
  \<^verbatim>\<open>New(n)\<close> in which \<^verbatim>\<open>Wait\<close> has been called, \<open>must_return\<close> holds: as long as no new
  call of \<^verbatim>\<open>Run\<close> starts, some action is enabled until \<^verbatim>\<open>Wait\<close> has returned (no
  deadlock), and every schedule, whatever \<^verbatim>\<open>select\<close> and the scheduler choose, reaches the
  return of \<^verbatim>\<open>Wait\<close> after finitely many actions. The body of a task is an action that
  is always enabled, which is the claim's condition that the bodies return.
\<close>

theorem wait_returns:
  assumes "exec n as = Some s" "wait_pc s \<noteq> NotCalled"
  shows "must_return s"
proof -
  from assms(1) obtain p where p: "New n = Inr p" "run as (start p) = Some s"
    by (rule execE)
  have "inv_count s"
    using inv_count_run[OF p(2) inv_count_start[OF p(1)]] by simp
  moreover have "inv_term s"
    using p by (intro inv_term_run[OF p(2)] inv_count_start inv_term_start)
  moreover have "inv_progress s"
    using p by (intro inv_progress_run[OF p(2)] inv_count_start inv_progress_start)
  ultimately show ?thesis using assms(2) by (rule must_return_inv)
qed

theorem wait_returns_witness:
  "\<exists>s. exec 2 [Run_push (Task 1 None), Run_signal, Run_push (Task 2 (Some ''e'')),
              Run_push (Task 3 None), Wait_call, Wait_checkQueue, Worker 1] = Some s \<and>
     wait_pc s = Selecting \<and> queue (pool s) = [Task 3 None] \<and> running (pool s) = 2 \<and>
     must_return s"
proof -
  let ?as = "[Run_push (Task 1 None), Run_signal, Run_push (Task 2 (Some ''e'')),
              Run_push (Task 3 None), Wait_call, Wait_checkQueue, Worker 1]"
  obtain s where s: "exec 2 ?as = Some s" "wait_pc s = Selecting"
      "queue (pool s) = [Task 3 None]" "running (pool s) = 2"
    by (simp add: eval_defs)
  from wait_returns[OF s(1)] s show ?thesis by simp
qed

end
